theory Spec2Isabelle
  imports Main
begin

section \<open>JavaScript strings\<close>

text \<open>
  A JavaScript string is modelled as a \<^typ>\<open>string\<close>, one \<^typ>\<open>char\<close> per code unit
  (code units above 255 are not represented). A value that may be \<^verbatim>\<open>undefined\<close> or
  \<^verbatim>\<open>null\<close> is a \<^typ>\<open>string option\<close>, \<^term>\<open>None\<close> standing for both.
\<close>

text \<open>The white space that \<^verbatim>\<open>String.prototype.trim\<close> removes, within the first 256 code units.\<close>

definition isWhitespace :: "char \<Rightarrow> bool" where
  "isWhitespace c =
     (c = CHR 0x09 \<or> c = CHR 0x0A \<or> c = CHR 0x0B \<or> c = CHR 0x0C \<or> c = CHR 0x0D
      \<or> c = CHR '' '' \<or> c = CHR 0xA0)"

definition trim :: "string \<Rightarrow> string" where
  "trim s = rev (dropWhile isWhitespace (rev (dropWhile isWhitespace s)))"

text \<open>\<^verbatim>\<open>s.startsWith(pat, p)\<close>: the pattern stands in \<open>s\<close> at position \<open>p\<close>.\<close>

definition occursAt :: "string \<Rightarrow> string \<Rightarrow> nat \<Rightarrow> bool" where
  "occursAt s pat p = (p + length pat \<le> length s \<and> take (length pat) (drop p s) = pat)"

text \<open>
  \<^verbatim>\<open>s.indexOf(pat)\<close>: the position of the leftmost occurrence, \<^term>\<open>None\<close> for the
  result \<^verbatim>\<open>-1\<close>. The empty pattern is found at 0.
\<close>

fun indexOf :: "string \<Rightarrow> string \<Rightarrow> nat option" where
  "indexOf [] pat = (if pat = [] then Some 0 else None)"
| "indexOf (c # cs) pat =
     (if take (length pat) (c # cs) = pat then Some 0
      else map_option Suc (indexOf cs pat))"

text \<open>
  \<^verbatim>\<open>s.substring(a, b)\<close> for non-negative arguments: both are clamped to the length and
  swapped when out of order.
\<close>

definition substring :: "string \<Rightarrow> nat \<Rightarrow> nat \<Rightarrow> string" where
  "substring s a b =
     (let a' = min a (length s); b' = min b (length s);
          lo = min a' b'; hi = max a' b'
      in take (hi - lo) (drop lo s))"

text \<open>\<^verbatim>\<open>(x || '')\<close> and the truthiness of a string value.\<close>

definition orEmpty :: "string option \<Rightarrow> string" where
  "orEmpty x = (case x of None \<Rightarrow> [] | Some s \<Rightarrow> s)"

definition truthy :: "string option \<Rightarrow> bool" where
  "truthy x = (case x of None \<Rightarrow> False | Some s \<Rightarrow> s \<noteq> [])"

section \<open>The document\<close>

text \<open>
  The subtree under \<^verbatim>\<open>document.body\<close>: a text node with its data, or an element with its
  tag name, its class list, its other attributes and its children. A node is addressed by
  its path from the body, the list of child indices; a path plays the part of the node
  reference of the source.
\<close>

datatype node =
    Text string
  | Element string "string list" "(string \<times> string) list" "node list"

type_synonym path = "nat list"

fun children :: "node \<Rightarrow> node list" where
  "children (Text s) = []"
| "children (Element t cl at cs) = cs"

fun nodeLength :: "node \<Rightarrow> nat" where
  "nodeLength (Text s) = length s"
| "nodeLength (Element t cl at cs) = length cs"

fun isText :: "node \<Rightarrow> bool" where
  "isText (Text s) = True"
| "isText (Element t cl at cs) = False"

fun nodeAt :: "node \<Rightarrow> path \<Rightarrow> node option" where
  "nodeAt n [] = Some n"
| "nodeAt (Text s) (i # p) = None"
| "nodeAt (Element t cl at cs) (i # p) = (if i < length cs then nodeAt (cs ! i) p else None)"

text \<open>\<^verbatim>\<open>node.textContent\<close>: the data of all text nodes below, in tree order.\<close>

fun textContent :: "node \<Rightarrow> string" where
  "textContent (Text s) = s"
| "textContent (Element t cl at cs) = concat (map textContent cs)"

text \<open>
  A text node as a tree walker sees it: its path, its data and the class list of its
  parent element.
\<close>

record textNode =
  tnPath :: path
  tnData :: string
  tnParentClasses :: "string list"

text \<open>
  The text nodes below a node in tree order. A \<^verbatim>\<open>TreeWalker\<close> with
  \<^verbatim>\<open>NodeFilter.SHOW_TEXT\<close> skips elements without asking the filter and descends into
  them; the root is never returned.
\<close>

fun walkNode :: "string list \<Rightarrow> path \<Rightarrow> node \<Rightarrow> textNode list"
  and walkList :: "string list \<Rightarrow> path \<Rightarrow> nat \<Rightarrow> node list \<Rightarrow> textNode list" where
  "walkNode pc p (Text s) = [\<lparr>tnPath = p, tnData = s, tnParentClasses = pc\<rparr>]"
| "walkNode pc p (Element t cl at cs) = walkList cl p 0 cs"
| "walkList pc p i [] = []"
| "walkList pc p i (c # cs) = walkNode pc (p @ [i]) c @ walkList pc p (Suc i) cs"

definition allTextNodes :: "node \<Rightarrow> textNode list" where
  "allTextNodes body = walkList (case body of Text s \<Rightarrow> [] | Element t cl at cs \<Rightarrow> cl) [] 0 (children body)"

text \<open>The reserved marker class of a highlight wrapper and its id attribute.\<close>

definition markerClass :: string where
  "markerClass = ''mark2link-highlight''"

definition idAttr :: string where
  "idAttr = ''data-highlight-id''"

section \<open>Linearization\<close>

text \<open>One entry of the \<^verbatim>\<open>textNodes\<close> array that both walks build.\<close>

record nodeInfo =
  node :: path
  startOffset :: nat
  endOffset :: nat
  nodeText :: string

text \<open>
  The \<^verbatim>\<open>acceptNode\<close> filter of \<^verbatim>\<open>findTextWithContext\<close>: a node is rejected when its
  trimmed content is empty or when its parent element carries the marker class.
\<close>

definition acceptNodeRestore :: "textNode \<Rightarrow> bool" where
  "acceptNodeRestore tn =
     (\<not> (trim (tnData tn) = [] \<or> markerClass \<in> set (tnParentClasses tn)))"

text \<open>
  The \<^verbatim>\<open>acceptNode\<close> filter of \<^verbatim>\<open>createHighlightFromText\<close>: a node is rejected only when
  its trimmed content is empty.
\<close>

definition acceptNodeCapture :: "textNode \<Rightarrow> bool" where
  "acceptNodeCapture tn = (\<not> (trim (tnData tn) = []))"

text \<open>
  The \<^verbatim>\<open>while (node = walker.nextNode())\<close> loop: every accepted node is pushed with its
  offsets in the text built so far, and its content is appended to \<^verbatim>\<open>fullText\<close>.
\<close>

fun collect :: "textNode list \<Rightarrow> nodeInfo list \<Rightarrow> string \<Rightarrow> nodeInfo list \<times> string" where
  "collect [] textNodes fullText = (textNodes, fullText)"
| "collect (n # ns) textNodes fullText =
     collect ns
       (textNodes @ [\<lparr>node = tnPath n, startOffset = length fullText,
                      endOffset = length fullText + length (tnData n), nodeText = tnData n\<rparr>])
       (fullText @ tnData n)"

definition linearizeRestore :: "node \<Rightarrow> nodeInfo list \<times> string" where
  "linearizeRestore body = collect (filter acceptNodeRestore (allTextNodes body)) [] []"

definition linearizeCapture :: "node \<Rightarrow> nodeInfo list \<times> string" where
  "linearizeCapture body = collect (filter acceptNodeCapture (allTextNodes body)) [] []"

section \<open>Live ranges\<close>

text \<open>A boundary point is a node and an offset into it; a range has two.\<close>

record range =
  startContainer :: path
  startOff :: nat
  endContainer :: path
  endOff :: nat

datatype position = Before | Equal | After

text \<open>
  The position of boundary point \<open>(pa, oa)\<close> relative to \<open>(pb, ob)\<close>, on paths: in the same
  node the offsets decide; when one node is an ancestor of the other, the child through
  which the descendant is reached is compared with the ancestor's offset; otherwise the
  first differing child index decides.
\<close>

fun comparePoints :: "path \<Rightarrow> nat \<Rightarrow> path \<Rightarrow> nat \<Rightarrow> position" where
  "comparePoints [] oa [] ob = (if oa < ob then Before else if oa = ob then Equal else After)"
| "comparePoints [] oa (j # pb) ob = (if j < oa then After else Before)"
| "comparePoints (i # pa) oa [] ob = (if i < ob then Before else After)"
| "comparePoints (i # pa) oa (j # pb) ob =
     (if i < j then Before else if j < i then After else comparePoints pa oa pb ob)"

definition collapsed :: "range \<Rightarrow> bool" where
  "collapsed r = (startContainer r = endContainer r \<and> startOff r = endOff r)"

text \<open>
  \<^verbatim>\<open>document.createRange()\<close>: a collapsed range at the start of the document. Every
  boundary point under the body is at or after it.
\<close>

definition createRange :: range where
  "createRange = \<lparr>startContainer = [], startOff = 0, endContainer = [], endOff = 0\<rparr>"

text \<open>
  \<^verbatim>\<open>range.setStart(node, offset)\<close> and \<^verbatim>\<open>range.setEnd(node, offset)\<close>. An offset beyond
  the node's length raises \<^verbatim>\<open>IndexSizeError\<close>, here \<^term>\<open>None\<close> (as does a path to no
  node). A start after the current end moves the end too; an end before the current start
  moves the start too.
\<close>

definition setStart :: "node \<Rightarrow> range \<Rightarrow> path \<Rightarrow> nat \<Rightarrow> range option" where
  "setStart body r n off =
     (case nodeAt body n of
        None \<Rightarrow> None
      | Some nd \<Rightarrow>
          if off > nodeLength nd then None
          else if comparePoints n off (endContainer r) (endOff r) = After
               then Some \<lparr>startContainer = n, startOff = off, endContainer = n, endOff = off\<rparr>
               else Some (r\<lparr>startContainer := n, startOff := off\<rparr>))"

definition setEnd :: "node \<Rightarrow> range \<Rightarrow> path \<Rightarrow> nat \<Rightarrow> range option" where
  "setEnd body r n off =
     (case nodeAt body n of
        None \<Rightarrow> None
      | Some nd \<Rightarrow>
          if off > nodeLength nd then None
          else if comparePoints n off (startContainer r) (startOff r) = Before
               then Some \<lparr>startContainer = n, startOff = off, endContainer = n, endOff = off\<rparr>
               else Some (r\<lparr>endContainer := n, endOff := off\<rparr>))"

text \<open>
  A text node is contained in a range when its start is after the range's start and its
  end is before the range's end.
\<close>

definition containedText :: "range \<Rightarrow> textNode \<Rightarrow> bool" where
  "containedText r tn =
     (comparePoints (tnPath tn) 0 (startContainer r) (startOff r) = After
      \<and> comparePoints (tnPath tn) (length (tnData tn)) (endContainer r) (endOff r) = Before)"

text \<open>
  \<^verbatim>\<open>range.toString()\<close>: within one text node the substring between the offsets; otherwise
  the tail of the start node (when it is a text node), the data of every contained text
  node in tree order, and the head of the end node (when it is a text node).
\<close>

definition rangeToString :: "node \<Rightarrow> range \<Rightarrow> string" where
  "rangeToString body r =
     (case (nodeAt body (startContainer r), nodeAt body (endContainer r)) of
        (Some sn, Some en) \<Rightarrow>
          if startContainer r = endContainer r \<and> isText sn
          then take (endOff r - startOff r) (drop (startOff r) (textContent sn))
          else (if isText sn then drop (startOff r) (textContent sn) else [])
               @ concat (map tnData (filter (containedText r) (allTextNodes body)))
               @ (if isText en then take (endOff r) (textContent en) else [])
      | _ \<Rightarrow> [])"

section \<open>Resolution: \<^verbatim>\<open>findTextWithContext\<close>\<close>

text \<open>
  Lines 679 to 702: the offset at which the search text is taken to start. With a truthy
  context the pattern \<^verbatim>\<open>textBefore + searchText + textAfter\<close> is looked for first; when
  that gives nothing the search text alone is looked for. \<^term>\<open>None\<close> is the early
  \<^verbatim>\<open>return null\<close> of line 699.
\<close>

definition searchIndex :: "string \<Rightarrow> string \<Rightarrow> string option \<Rightarrow> string option \<Rightarrow> nat option" where
  "searchIndex fullText searchText textBefore textAfter =
     (let contextPattern = orEmpty textBefore @ searchText @ orEmpty textAfter;
          withContext =
            (if truthy textBefore \<or> truthy textAfter
             then (case indexOf fullText contextPattern of
                     None \<Rightarrow> None
                   | Some patternIndex \<Rightarrow> Some (patternIndex + length (orEmpty textBefore)))
             else None)
      in case withContext of
           Some i \<Rightarrow> Some i
         | None \<Rightarrow> indexOf fullText searchText)"

text \<open>
  Lines 708 to 725: the loop over \<^verbatim>\<open>textNodes\<close> that looks for the node holding the start
  position and the node holding the end position, leaving as soon as both are set.
\<close>

fun locate :: "nat \<Rightarrow> nat \<Rightarrow> nodeInfo list \<Rightarrow> (path \<times> nat) option \<Rightarrow> (path \<times> nat) option
               \<Rightarrow> (path \<times> nat) option \<times> (path \<times> nat) option" where
  "locate targetStart targetEnd [] startNode endNode = (startNode, endNode)"
| "locate targetStart targetEnd (nodeInfo # rest) startNode endNode =
     (let startNode' =
            (if targetStart \<ge> startOffset nodeInfo \<and> targetStart < endOffset nodeInfo
                \<and> startNode = None
             then Some (node nodeInfo, targetStart - startOffset nodeInfo) else startNode);
          endNode' =
            (if targetEnd > startOffset nodeInfo \<and> targetEnd \<le> endOffset nodeInfo
                \<and> endNode = None
             then Some (node nodeInfo, targetEnd - startOffset nodeInfo) else endNode)
      in if startNode' \<noteq> None \<and> endNode' \<noteq> None then (startNode', endNode')
         else locate targetStart targetEnd rest startNode' endNode')"

text \<open>
  Lines 727 to 749: the range is built and its text compared with the search text. An
  exception of \<^verbatim>\<open>setStart\<close> or \<^verbatim>\<open>setEnd\<close> is caught and gives \<^verbatim>\<open>null\<close>, as does a
  mismatch and a missing start or end node.
\<close>

definition materialize :: "node \<Rightarrow> nodeInfo list \<Rightarrow> string \<Rightarrow> nat \<Rightarrow> range option" where
  "materialize body textNodes searchText idx =
     (case locate idx (idx + length searchText) textNodes None None of
        (Some (startNode, startNodeOffset), Some (endNode, endNodeOffset)) \<Rightarrow>
          (case setStart body createRange startNode startNodeOffset of
             None \<Rightarrow> None
           | Some r1 \<Rightarrow>
               (case setEnd body r1 endNode endNodeOffset of
                  None \<Rightarrow> None
                | Some r \<Rightarrow> if rangeToString body r = searchText then Some r else None))
      | _ \<Rightarrow> None)"

definition findTextWithContext :: "node \<Rightarrow> string option \<Rightarrow> string option \<Rightarrow> string option \<Rightarrow> range option" where
  "findTextWithContext body searchText textBefore textAfter =
     (case searchText of
        None \<Rightarrow> None
      | Some st \<Rightarrow>
          if length st = 0 then None
          else (case linearizeRestore body of
                  (textNodes, fullText) \<Rightarrow>
                    (case searchIndex fullText st textBefore textAfter of
                       None \<Rightarrow> None
                     | Some idx \<Rightarrow> materialize body textNodes st idx)))"

section \<open>Mutating the tree: the range operations of the DOM\<close>

text \<open>
  \<^verbatim>\<open>applyHighlight\<close> and \<^verbatim>\<open>deleteHighlight\<close> change the document through
  \<^verbatim>\<open>Range.surroundContents\<close>, \<^verbatim>\<open>Range.extractContents\<close>, \<^verbatim>\<open>Range.insertNode\<close>,
  \<^verbatim>\<open>Node.insertBefore\<close>, \<^verbatim>\<open>Node.removeChild\<close> and \<^verbatim>\<open>Node.normalize\<close>. Each is a function
  from the tree to the new tree, following the algorithm of the DOM standard; an exception
  of the operation is the result \<^term>\<open>None\<close>.
\<close>

text \<open>
  A partially contained node at the start of a range: what lies from the boundary point to
  the end of the node moves into a clone of the node. The result is the node as it stays
  in the tree and the clone.
\<close>

fun extractFrom :: "node \<Rightarrow> path \<Rightarrow> nat \<Rightarrow> (node \<times> node) option" where
  "extractFrom (Text s) [] off =
     (if off \<le> length s then Some (Text (take off s), Text (drop off s)) else None)"
| "extractFrom (Text s) (i # p) off = None"
| "extractFrom (Element t cl at cs) [] off =
     (if off \<le> length cs
      then Some (Element t cl at (take off cs), Element t cl at (drop off cs)) else None)"
| "extractFrom (Element t cl at cs) (i # p) off =
     (if i < length cs
      then (case extractFrom (cs ! i) p off of
              None \<Rightarrow> None
            | Some (rest, clone) \<Rightarrow>
                Some (Element t cl at (take i cs @ [rest]),
                      Element t cl at (clone # drop (Suc i) cs)))
      else None)"

text \<open>
  A partially contained node at the end of a range: what lies from the start of the node
  to the boundary point moves into a clone. The result is the clone and the node as it
  stays in the tree.
\<close>

fun extractUpto :: "node \<Rightarrow> path \<Rightarrow> nat \<Rightarrow> (node \<times> node) option" where
  "extractUpto (Text s) [] off =
     (if off \<le> length s then Some (Text (take off s), Text (drop off s)) else None)"
| "extractUpto (Text s) (i # p) off = None"
| "extractUpto (Element t cl at cs) [] off =
     (if off \<le> length cs
      then Some (Element t cl at (take off cs), Element t cl at (drop off cs)) else None)"
| "extractUpto (Element t cl at cs) (i # p) off =
     (if i < length cs
      then (case extractUpto (cs ! i) p off of
              None \<Rightarrow> None
            | Some (clone, rest) \<Rightarrow>
                Some (Element t cl at (take i cs @ [clone]),
                      Element t cl at (rest # drop (Suc i) cs)))
      else None)"

text \<open>
  Extracting a range that is not collapsed, below a node that is an inclusive ancestor of
  both containers. While both paths go through the same child the common ancestor lies
  deeper. At the common ancestor the fragment is made of the clone of the first partially
  contained child, the contained children and the clone of the last partially contained
  child. The result is the new node, the children of the fragment and the point to which
  the range collapses: the start point when the start container is the common ancestor,
  otherwise the point after the first partially contained child.
\<close>

fun extractRec :: "node \<Rightarrow> path \<Rightarrow> nat \<Rightarrow> path \<Rightarrow> nat \<Rightarrow> (node \<times> node list \<times> path \<times> nat) option" where
  "extractRec (Text s) [] so [] eo =
     (if so \<le> eo \<and> eo \<le> length s
      then Some (Text (take so s @ drop eo s), [Text (take (eo - so) (drop so s))], [], so)
      else None)"
| "extractRec (Element t cl at cs) [] so [] eo =
     (if so \<le> eo \<and> eo \<le> length cs
      then Some (Element t cl at (take so cs @ drop eo cs), take (eo - so) (drop so cs), [], so)
      else None)"
| "extractRec (Element t cl at cs) [] so (j # ep) eo =
     (if so \<le> j \<and> j < length cs
      then (case extractUpto (cs ! j) ep eo of
              None \<Rightarrow> None
            | Some (clone, rest) \<Rightarrow>
                Some (Element t cl at (take so cs @ rest # drop (Suc j) cs),
                      take (j - so) (drop so cs) @ [clone], [], so))
      else None)"
| "extractRec (Element t cl at cs) (i # sp) so [] eo =
     (if i < eo \<and> eo \<le> length cs
      then (case extractFrom (cs ! i) sp so of
              None \<Rightarrow> None
            | Some (rest, clone) \<Rightarrow>
                Some (Element t cl at (take i cs @ rest # drop eo cs),
                      clone # take (eo - Suc i) (drop (Suc i) cs), [], Suc i))
      else None)"
| "extractRec (Element t cl at cs) (i # sp) so (j # ep) eo =
     (if i = j
      then (if i < length cs
            then (case extractRec (cs ! i) sp so ep eo of
                    None \<Rightarrow> None
                  | Some (c, frag, np, noff) \<Rightarrow>
                      Some (Element t cl at (cs[i := c]), frag, i # np, noff))
            else None)
      else if i < j \<and> j < length cs
      then (case (extractFrom (cs ! i) sp so, extractUpto (cs ! j) ep eo) of
              (Some (rest1, clone1), Some (clone2, rest2)) \<Rightarrow>
                Some (Element t cl at (take i cs @ rest1 # rest2 # drop (Suc j) cs),
                      clone1 # take (j - Suc i) (drop (Suc i) cs) @ [clone2], [], Suc i)
            | _ \<Rightarrow> None)
      else None)"
| "extractRec (Text s) sp so ep eo = None"

text \<open>
  \<^verbatim>\<open>range.extractContents()\<close>: a collapsed range gives an empty fragment and changes
  nothing.
\<close>

definition extractContents :: "node \<Rightarrow> range \<Rightarrow> (node \<times> node list \<times> path \<times> nat) option" where
  "extractContents body r =
     (if collapsed r then Some (body, [], startContainer r, startOff r)
      else extractRec body (startContainer r) (startOff r) (endContainer r) (endOff r))"

text \<open>
  \<^verbatim>\<open>range.insertNode(w)\<close> for a range collapsed at the given point: a text node holding
  the point is split there and \<open>w\<close> goes between the halves; in an element \<open>w\<close> goes
  before the child at the offset. A text node without a parent raises
  \<^verbatim>\<open>HierarchyRequestError\<close>.
\<close>

fun insertNode :: "node \<Rightarrow> path \<Rightarrow> nat \<Rightarrow> node \<Rightarrow> node option" where
  "insertNode (Text s) p off w = None"
| "insertNode (Element t cl at cs) [] off w =
     (if off \<le> length cs then Some (Element t cl at (take off cs @ w # drop off cs)) else None)"
| "insertNode (Element t cl at cs) (i # p) off w =
     (if i < length cs
      then (case (cs ! i, p) of
              (Text s, []) \<Rightarrow>
                if off \<le> length s
                then Some (Element t cl at
                             (take i cs @ Text (take off s) # w # Text (drop off s) # drop (Suc i) cs))
                else None
            | _ \<Rightarrow>
                (case insertNode (cs ! i) p off w of
                   None \<Rightarrow> None
                 | Some c \<Rightarrow> Some (Element t cl at (cs[i := c]))))
      else None)"

text \<open>
  \<^verbatim>\<open>node.normalize()\<close>: below the node, every empty text node is removed and adjacent
  text nodes are merged into one.
\<close>

fun normalize :: "node \<Rightarrow> node"
  and normalizeList :: "node list \<Rightarrow> node list" where
  "normalize (Text s) = Text s"
| "normalize (Element t cl at cs) = Element t cl at (normalizeList cs)"
| "normalizeList [] = []"
| "normalizeList (c # cs) =
     (case c of
        Text s \<Rightarrow>
          (case normalizeList cs of
             Text s' # rest \<Rightarrow> Text (s @ s') # rest
           | rest \<Rightarrow> if s = [] then rest else Text s # rest)
      | Element t cl at ds \<Rightarrow> normalize c # normalizeList cs)"

text \<open>\<^verbatim>\<open>normalize\<close> called on the node at a path.\<close>

fun normalizeAt :: "node \<Rightarrow> path \<Rightarrow> node" where
  "normalizeAt n [] = normalize n"
| "normalizeAt (Text s) (i # p) = Text s"
| "normalizeAt (Element t cl at cs) (i # p) =
     (if i < length cs then Element t cl at (cs[i := normalizeAt (cs ! i) p])
      else Element t cl at cs)"

text \<open>
  The first step of \<^verbatim>\<open>range.surroundContents\<close>: is a node that is not a text node
  partially contained in the range? Such a node is an inclusive ancestor of one container
  and not of the other, so it is the child of the common ancestor through which a
  container is reached, or lies below that child.
\<close>

definition childIsElement :: "node \<Rightarrow> nat \<Rightarrow> bool" where
  "childIsElement n i = (case nodeAt n [i] of None \<Rightarrow> False | Some c \<Rightarrow> \<not> isText c)"

fun partiallyContainsNonText :: "node \<Rightarrow> path \<Rightarrow> path \<Rightarrow> bool" where
  "partiallyContainsNonText n [] [] = False"
| "partiallyContainsNonText n [] (j # ep) = childIsElement n j"
| "partiallyContainsNonText n (i # sp) [] = childIsElement n i"
| "partiallyContainsNonText n (i # sp) (j # ep) =
     (if i = j
      then (case nodeAt n [i] of None \<Rightarrow> False | Some c \<Rightarrow> partiallyContainsNonText c sp ep)
      else childIsElement n i \<or> childIsElement n j)"

text \<open>
  The wrapper element that \<^verbatim>\<open>applyHighlight\<close> creates: a \<^verbatim>\<open>span\<close> with the marker class,
  the highlight id and the colour. Its click listener is not part of the tree.
\<close>

definition wrapperElement :: "string \<Rightarrow> string \<Rightarrow> node list \<Rightarrow> node" where
  "wrapperElement highlightId color contents =
     Element ''span'' [markerClass]
       [(idAttr, highlightId), (''style'', ''background-color: '' @ color @ ''; cursor: pointer;'')]
       contents"

text \<open>
  \<^verbatim>\<open>range.surroundContents(span)\<close>: \<^verbatim>\<open>InvalidStateError\<close> before any change when a
  non-text node is partially contained; otherwise the range is extracted, the new parent
  is inserted where the range collapsed and the fragment becomes its content.
\<close>

definition surroundContents :: "node \<Rightarrow> range \<Rightarrow> (node list \<Rightarrow> node) \<Rightarrow> node option" where
  "surroundContents body r newParent =
     (if partiallyContainsNonText body (startContainer r) (endContainer r) then None
      else (case extractContents body r of
              None \<Rightarrow> None
            | Some (body1, frag, np, noff) \<Rightarrow> insertNode body1 np noff (newParent frag)))"

text \<open>
  The parent of a node that \<^verbatim>\<open>insertNode\<close> put at a point: the container itself, or the
  parent of the container when that is a text node.
\<close>

definition insertionParent :: "node \<Rightarrow> path \<Rightarrow> path" where
  "insertionParent body np =
     (case nodeAt body np of Some (Text s) \<Rightarrow> butlast np | _ \<Rightarrow> np)"

text \<open>
  \<^verbatim>\<open>document.querySelector('[data-highlight-id="..."]')\<close>: the path of the first element
  in tree order that carries the id, among the descendants of the body. The ids are those
  that capture generates (\<^verbatim>\<open>hl-\<close>, digits and lower-case letters), for which the selector
  is well formed and the call does not raise.
\<close>

fun findNode :: "string \<Rightarrow> path \<Rightarrow> node \<Rightarrow> path option"
  and findList :: "string \<Rightarrow> path \<Rightarrow> nat \<Rightarrow> node list \<Rightarrow> path option" where
  "findNode hid p (Text s) = None"
| "findNode hid p (Element t cl at cs) =
     (if map_of at idAttr = Some hid then Some p else findList hid p 0 cs)"
| "findList hid p i [] = None"
| "findList hid p i (c # cs) =
     (case findNode hid (p @ [i]) c of
        Some q \<Rightarrow> Some q
      | None \<Rightarrow> findList hid p (Suc i) cs)"

definition querySelector :: "node \<Rightarrow> string \<Rightarrow> path option" where
  "querySelector body hid = findList hid [] 0 (children body)"

text \<open>The number of elements that carry the id, among the descendants of the body.\<close>

fun countNode :: "string \<Rightarrow> node \<Rightarrow> nat" where
  "countNode hid (Text s) = 0"
| "countNode hid (Element t cl at cs) =
     (if map_of at idAttr = Some hid then 1 else 0) + sum_list (map (countNode hid) cs)"

definition countWrappers :: "node \<Rightarrow> string \<Rightarrow> nat" where
  "countWrappers body hid = sum_list (map (countNode hid) (children body))"

text \<open>
  Lines 1349 to 1353: the children of the element at the path are moved before it, one
  after the other, and the element is removed from its parent. The path is one that
  \<^verbatim>\<open>querySelector\<close> returned, so it leads to an element below the body; any other path
  gives \<^term>\<open>None\<close>.
\<close>

fun unwrapElement :: "node \<Rightarrow> path \<Rightarrow> node option" where
  "unwrapElement n [] = None"
| "unwrapElement (Text s) (i # p) = None"
| "unwrapElement (Element t cl at cs) [i] =
     (if i < length cs
      then (case cs ! i of
              Text s \<Rightarrow> None
            | Element t' cl' at' ds \<Rightarrow>
                Some (Element t cl at (take i cs @ ds @ drop (Suc i) cs)))
      else None)"
| "unwrapElement (Element t cl at cs) (i # j # p) =
     (if i < length cs
      then (case unwrapElement (cs ! i) (j # p) of
              None \<Rightarrow> None
            | Some c \<Rightarrow> Some (Element t cl at (cs[i := c])))
      else None)"

section \<open>The page: highlights, storage and the document\<close>

text \<open>The stored record of a highlight, as \<^verbatim>\<open>createHighlightFromText\<close> builds it.\<close>

record highlight =
  hlId :: string
  hlText :: string
  textBefore :: "string option"
  textAfter :: "string option"
  url :: string
  pageTitle :: string
  hlStartOffset :: nat
  hlEndOffset :: nat
  color :: string
  hlNote :: string
  category :: string
  timestamp :: string

text \<open>
  The state of the content script: the document under the body, the \<^verbatim>\<open>highlights\<close> array
  of the page, the \<^verbatim>\<open>highlights\<close> list in \<^verbatim>\<open>chrome.storage.local\<close>, and the messages
  of the toasts whose timers have not run out.
\<close>

record page =
  body :: node
  highlights :: "highlight list"
  storage :: "highlight list"
  toasts :: "string list"

subsection \<open>\<^verbatim>\<open>showToast\<close>\<close>

text \<open>
  The two symbols of the messages lie beyond the code units modelled here; each is written
  as the bytes of its UTF-8 encoding. A count is written in decimal digits.
\<close>

definition checkMark :: string where
  "checkMark = [CHR 0xE2, CHR 0x9C, CHR 0x93]"

definition warningSign :: string where
  "warningSign = [CHR 0xE2, CHR 0x9A, CHR 0xA0, CHR 0xEF, CHR 0xB8, CHR 0x8F]"

function showNat :: "nat \<Rightarrow> string" where
  "showNat n =
     (if n < 10 then [char_of (48 + n)]
      else showNat (n div 10) @ [char_of (48 + n mod 10)])"
  by pat_completeness auto
termination
  by (relation "measure (\<lambda>n. n)") auto

text \<open>\<^verbatim>\<open>parent.appendChild(child)\<close> on an element.\<close>

fun appendChild :: "node \<Rightarrow> node \<Rightarrow> node" where
  "appendChild (Element t cl at cs) c = Element t cl at (cs @ [c])"
| "appendChild (Text s) c = Text s"

text \<open>
  Lines 1363 to 1367: a \<^verbatim>\<open>div\<close> of class \<^verbatim>\<open>mark2link-toast\<close> whose text content is the
  message is appended to the body. As long as it is there its text is part of the
  document: both walks read it. (The class \<^verbatim>\<open>show\<close>, added after 100 ms and taken away
  after 2000 ms, plays no part in any walk and is left out.)
\<close>

definition toastElement :: "string \<Rightarrow> node" where
  "toastElement message = Element ''div'' [''mark2link-toast''] [] [Text message]"

definition showToast :: "string \<Rightarrow> page \<Rightarrow> page" where
  "showToast message pg =
     pg\<lparr>body := appendChild (body pg) (toastElement message), toasts := toasts pg @ [message]\<rparr>"

text \<open>
  Lines 1373 to 1376: the last timer of a toast, 2300 ms after it was shown, removes its
  element. The element is found again by its content, as the first child of the body that
  is the toast of the message.
\<close>

fun removeChild :: "node \<Rightarrow> node \<Rightarrow> node" where
  "removeChild (Element t cl at cs) c = Element t cl at (remove1 c cs)"
| "removeChild (Text s) c = Text s"

definition removeToast :: "string \<Rightarrow> page \<Rightarrow> page" where
  "removeToast message pg =
     pg\<lparr>body := removeChild (body pg) (toastElement message), toasts := remove1 message (toasts pg)\<rparr>"

subsection \<open>\<^verbatim>\<open>applyHighlight\<close>\<close>

text \<open>
  Lines 753 to 809. A collapsed range is left alone. \<^verbatim>\<open>surroundContents\<close> is tried first;
  when it raises, the content is extracted, put into a fresh wrapper, the wrapper is
  inserted where the range collapsed and its parent is normalized. An exception on this
  second way is caught and a toast is shown; the document stays as the exception left it.
\<close>

definition applyHighlight :: "page \<Rightarrow> range \<Rightarrow> string \<Rightarrow> string \<Rightarrow> page" where
  "applyHighlight pg r highlightId c =
     (if collapsed r then pg
      else (case surroundContents (body pg) r (wrapperElement highlightId c) of
              Some b \<Rightarrow> pg\<lparr>body := b\<rparr>
            | None \<Rightarrow>
                (case extractContents (body pg) r of
                   None \<Rightarrow> showToast (warningSign @ '' Could not highlight this selection'') pg
                 | Some (b1, contents, np, noff) \<Rightarrow>
                     (case insertNode b1 np noff (wrapperElement highlightId c contents) of
                        None \<Rightarrow> showToast (warningSign @ '' Could not highlight this selection'') (pg\<lparr>body := b1\<rparr>)
                      | Some b2 \<Rightarrow> pg\<lparr>body := normalizeAt b2 (insertionParent b1 np)\<rparr>))))"

subsection \<open>\<^verbatim>\<open>deleteHighlight\<close>\<close>

text \<open>
  Lines 1335 to 1360, the user having confirmed (\<open>confirmed\<close> is the answer to the
  \<^verbatim>\<open>confirm\<close> dialog) and the storage calls having completed: the highlight leaves both
  lists, and the first element that carries its id is replaced by its children, after
  which the parent is normalized.
\<close>

definition removeWrapper :: "node \<Rightarrow> string \<Rightarrow> node" where
  "removeWrapper b highlightId =
     (case querySelector b highlightId of
        None \<Rightarrow> b
      | Some element \<Rightarrow>
          (case unwrapElement b element of
             None \<Rightarrow> b
           | Some b1 \<Rightarrow> normalizeAt b1 (butlast element)))"

definition deleteHighlight :: "bool \<Rightarrow> page \<Rightarrow> string \<Rightarrow> page" where
  "deleteHighlight confirmed pg highlightId =
     (if \<not> confirmed then pg
      else showToast (checkMark @ '' Highlight deleted'')
             (pg\<lparr>storage := filter (\<lambda>h. hlId h \<noteq> highlightId) (storage pg),
                 highlights := filter (\<lambda>h. hlId h \<noteq> highlightId) (highlights pg),
                 body := removeWrapper (body pg) highlightId\<rparr>))"

subsection \<open>Capture: \<^verbatim>\<open>createHighlightFromText\<close>\<close>

text \<open>
  Lines 1072 to 1078: the loop that looks for the start container among the collected
  nodes and sets both offsets when it finds it.
\<close>

fun locateStart :: "nodeInfo list \<Rightarrow> range \<Rightarrow> string \<Rightarrow> nat \<times> nat \<Rightarrow> nat \<times> nat" where
  "locateStart [] r t offsets = offsets"
| "locateStart (nodeInfo # rest) r t offsets =
     (if node nodeInfo = startContainer r
      then (startOffset nodeInfo + startOff r, startOffset nodeInfo + startOff r + length t)
      else locateStart rest r t offsets)"

text \<open>
  Lines 1036 to 1089: the context of a selection. Both offsets start at 0, the walk
  collects the text nodes, and the context is cut out of the full text around the
  offsets. \<^verbatim>\<open>Math.max(0, startOffset - contextLength)\<close> is the truncated subtraction of
  \<^typ>\<open>nat\<close>. The result is \<^verbatim>\<open>textBefore\<close>, \<^verbatim>\<open>textAfter\<close>, \<^verbatim>\<open>startOffset\<close> and
  \<^verbatim>\<open>endOffset\<close>.
\<close>

definition contextLength :: nat where
  "contextLength = 50"

definition captureContext :: "node \<Rightarrow> range \<Rightarrow> string \<Rightarrow> string \<times> string \<times> nat \<times> nat" where
  "captureContext b r t =
     (case linearizeCapture b of
        (textNodes, fullText) \<Rightarrow>
          (case locateStart textNodes r t (0, 0) of
             (startOff', endOff') \<Rightarrow>
               (substring fullText (startOff' - contextLength) startOff',
                substring fullText endOff' (min (length fullText) (endOff' + contextLength)),
                startOff', endOff')))"

text \<open>
  What the browser supplies to a capture: the generated id, the address of the page, its
  title and the time.
\<close>

record captureEnv =
  newId :: string
  href :: string
  title :: string
  now :: string

text \<open>
  Lines 1028 to 1106: nothing is built for a missing or empty text; otherwise the record
  is built from the text and the context. The address is cut at the first \<^verbatim>\<open>#\<close>.
\<close>

definition highlightData :: "node \<Rightarrow> captureEnv \<Rightarrow> range \<Rightarrow> string option \<Rightarrow> string \<Rightarrow> highlight option" where
  "highlightData b env r t c =
     (case t of
        None \<Rightarrow> None
      | Some txt \<Rightarrow>
          if length txt = 0 then None
          else (case captureContext b r txt of
                  (tb, ta, startOff', endOff') \<Rightarrow>
                    Some \<lparr>hlId = newId env, hlText = txt, textBefore = Some tb, textAfter = Some ta,
                          url = takeWhile (\<lambda>ch. ch \<noteq> CHR ''#'') (href env), pageTitle = title env,
                          hlStartOffset = startOff', hlEndOffset = endOff', color = c,
                          hlNote = [], category = [], timestamp = now env\<rparr>))"

text \<open>
  Lines 1108 to 1134, the storage calls having completed: the record is stored, pushed on
  the page's array, and the highlight is applied to the selection's range.
\<close>

definition createHighlightFromText :: "page \<Rightarrow> captureEnv \<Rightarrow> range \<Rightarrow> string option \<Rightarrow> string \<Rightarrow> page" where
  "createHighlightFromText pg env r t c =
     (case highlightData (body pg) env r t c of
        None \<Rightarrow> pg
      | Some h \<Rightarrow>
          showToast (checkMark @ '' Highlight saved!'')
            (applyHighlight (pg\<lparr>storage := storage pg @ [h], highlights := highlights pg @ [h]\<rparr>)
               r (hlId h) c))"

subsection \<open>Restoration: \<^verbatim>\<open>restoreHighlights\<close>\<close>

text \<open>
  Lines 629 to 639: an element that carries the id is looked for first; when there is one
  the result is \<^verbatim>\<open>null\<close> and nothing is searched.
\<close>

definition createRangeFromHighlight :: "node \<Rightarrow> highlight \<Rightarrow> range option" where
  "createRangeFromHighlight b h =
     (case querySelector b (hlId h) of
        Some existingHighlight \<Rightarrow> None
      | None \<Rightarrow> findTextWithContext b (Some (hlText h)) (textBefore h) (textAfter h))"

text \<open>
  Lines 605 to 619: the body of the \<^verbatim>\<open>forEach\<close>, on the page and the two counters. Its
  \<^verbatim>\<open>catch\<close> would count an exception as a failure; none of the calls modelled here raises
  one, \<^verbatim>\<open>applyHighlight\<close> catching its own.
\<close>

definition restoreOne :: "highlight \<Rightarrow> page \<times> nat \<times> nat \<Rightarrow> page \<times> nat \<times> nat" where
  "restoreOne h st =
     (case st of
        (pg, successCount, failCount) \<Rightarrow>
          (case createRangeFromHighlight (body pg) h of
             Some r \<Rightarrow> (applyHighlight pg r (hlId h) (color h), successCount + 1, failCount)
           | None \<Rightarrow> (pg, successCount, failCount + 1)))"

fun restoreEach :: "highlight list \<Rightarrow> page \<times> nat \<times> nat \<Rightarrow> page \<times> nat \<times> nat" where
  "restoreEach [] st = st"
| "restoreEach (h # hs) st = restoreEach hs (restoreOne h st)"

text \<open>
  Lines 600 to 626: every highlight of the page is tried in the order of the array; a
  toast with the number of successes is shown when at least one was restored. The result
  is the page and the two counters that are logged.
\<close>

definition restoreHighlights :: "page \<Rightarrow> page \<times> nat \<times> nat" where
  "restoreHighlights pg =
     (case restoreEach (highlights pg) (pg, 0, 0) of
        (pg1, successCount, failCount) \<Rightarrow>
          (if successCount > 0
           then showToast (checkMark @ '' Restored '' @ showNat successCount @ '' highlight(s)'') pg1
           else pg1,
           successCount, failCount))"

section \<open>Scrolling to a highlight: \<^verbatim>\<open>scrollToHighlightFromHash\<close>\<close>

text \<open>
  The state that the procedure reads and changes: the host (with its port), the path, the
  query and the fragment of the address of the page, the ids of the elements scrolled
  into view, the number of \<^verbatim>\<open>querySelector\<close> calls made and the time spent in timers, in
  milliseconds.
\<close>

record scrollState =
  host :: string
  pathname :: string
  search :: string
  locationHash :: string
  scrolledTo :: "string list"
  queries :: nat
  elapsed :: nat

text \<open>
  Nothing in the procedure catches an exception, so one that a call raises ends the run,
  in the timer callback in which it was raised, and is reported as uncaught. The error
  carries the state at that moment.
\<close>

datatype scrollError = SyntaxError scrollState | SecurityError scrollState

text \<open>
  Line 1390: the selector, into which the id of the fragment is put as it is, between
  double quotes.
\<close>

definition selectorFor :: "string \<Rightarrow> string" where
  "selectorFor highlightId = ''[data-highlight-id='' @ [CHR 0x22] @ highlightId @ [CHR 0x22] @ '']''"

text \<open>
  What a call of \<^verbatim>\<open>document.querySelector\<close> does with a selector: it returns an element,
  returns \<^verbatim>\<open>null\<close>, or raises \<^verbatim>\<open>SyntaxError\<close> for a selector that it cannot parse.
\<close>

datatype queryResult = Found | NotFound | SelectorError

definition maxAttempts :: nat where
  "maxAttempts = 10"

definition fragmentPrefix :: string where
  "fragmentPrefix = ''#sensenote-''"

text \<open>
  \<^verbatim>\<open>history.replaceState(null, null, address)\<close> with a relative address. An
  address that starts with two slashes is read as scheme-relative: the slashes that
  follow are skipped, and what comes then, up to the next slash or question mark, is
  its authority. Unless that is the host of the page (compared as written) the new
  address has another origin, or none, and the call raises \<^verbatim>\<open>SecurityError\<close>, the page
  keeping its address. Any other address is taken as a path and a query on the same
  origin: the page keeps both and loses its fragment. (The pages are those of
  \<^verbatim>\<open>http\<close> and \<^verbatim>\<open>https\<close> addresses, whose path starts with a slash.)
\<close>

definition replaceState :: "string \<Rightarrow> scrollState \<Rightarrow> scrollError + scrollState" where
  "replaceState address s =
     (if take 2 address = ''//''
      then (let afterSlashes = dropWhile (\<lambda>ch. ch = CHR ''/'') address;
                authority = takeWhile (\<lambda>ch. ch \<noteq> CHR ''/'' \<and> ch \<noteq> CHR ''?'') afterSlashes;
                rest = dropWhile (\<lambda>ch. ch \<noteq> CHR ''/'' \<and> ch \<noteq> CHR ''?'') afterSlashes
            in if authority = host s
               then Inr (s\<lparr>pathname := (case takeWhile (\<lambda>ch. ch \<noteq> CHR ''?'') rest of
                                           [] \<Rightarrow> ''/'' | pth \<Rightarrow> pth),
                          search := dropWhile (\<lambda>ch. ch \<noteq> CHR ''?'') rest,
                          locationHash := []\<rparr>)
               else Inl (SecurityError s))
      else Inr (s\<lparr>locationHash := []\<rparr>))"

text \<open>
  Lines 1388 to 1411: \<^verbatim>\<open>tryScroll\<close>. \<open>querySelectorAt selector k\<close> is what the \<open>k\<close>-th
  call of \<^verbatim>\<open>document.querySelector\<close> does, on the document as it is at that time;
  \<open>attempts\<close> is the counter before the call. Each \<^verbatim>\<open>setTimeout\<close> adds its delay to the
  time. On success the address is rewritten by a timer of its own, 1000 ms later.
\<close>

function tryScroll :: "(string \<Rightarrow> nat \<Rightarrow> queryResult) \<Rightarrow> string \<Rightarrow> nat \<Rightarrow> scrollState
                       \<Rightarrow> scrollError + scrollState" where
  "tryScroll querySelectorAt highlightId attempts s =
     (let attempts' = attempts + 1;
          s1 = s\<lparr>queries := queries s + 1\<rparr>
      in case querySelectorAt (selectorFor highlightId) attempts' of
           SelectorError \<Rightarrow> Inl (SyntaxError s1)
         | Found \<Rightarrow>
             replaceState (pathname s1 @ search s1)
               (s1\<lparr>scrolledTo := scrolledTo s1 @ [highlightId], elapsed := elapsed s1 + 1000\<rparr>)
         | NotFound \<Rightarrow>
             if attempts' < maxAttempts
             then tryScroll querySelectorAt highlightId attempts' (s1\<lparr>elapsed := elapsed s1 + 500\<rparr>)
             else replaceState (pathname s1 @ search s1) s1)"
  by pat_completeness auto
termination
  by (relation "measure (\<lambda>(querySelectorAt, highlightId, attempts, s). maxAttempts - attempts)") auto

text \<open>
  Lines 1380 to 1416: nothing happens unless the fragment starts with the reserved prefix;
  otherwise the first attempt is made after 500 ms.
\<close>

definition scrollToHighlightFromHash :: "(string \<Rightarrow> nat \<Rightarrow> queryResult) \<Rightarrow> scrollState
                                          \<Rightarrow> scrollError + scrollState" where
  "scrollToHighlightFromHash querySelectorAt s =
     (if take (length fragmentPrefix) (locationHash s) = fragmentPrefix
      then tryScroll querySelectorAt (drop (length fragmentPrefix) (locationHash s)) 0
             (s\<lparr>elapsed := elapsed s + 500\<rparr>)
      else Inr s)"

text \<open>The state in which a run ends, with or without an exception.\<close>

fun errorState :: "scrollError \<Rightarrow> scrollState" where
  "errorState (SyntaxError s) = s"
| "errorState (SecurityError s) = s"

definition finalState :: "scrollError + scrollState \<Rightarrow> scrollState" where
  "finalState res = (case res of Inl e \<Rightarrow> errorState e | Inr s \<Rightarrow> s)"

section \<open>Round trips\<close>

text \<open>
  The round trip of a selection: the record is built from the selection, resolved at once
  on the same document, applied (lines 605 to 619) and deleted (lines 1335 to 1360); then
  the timer of the toast of the deletion runs out.
\<close>

definition roundTrip :: "page \<Rightarrow> captureEnv \<Rightarrow> range \<Rightarrow> string option \<Rightarrow> string \<Rightarrow> page" where
  "roundTrip pg env sel t c =
     (case highlightData (body pg) env sel t c of
        None \<Rightarrow> pg
      | Some h \<Rightarrow>
          removeToast (checkMark @ '' Highlight deleted'')
            (deleteHighlight True (fst (restoreOne h (pg, 0, 0))) (hlId h)))"

section \<open>Notions of the data model\<close>

text \<open>
  The invariant of a list of text runs: the first starts at \<open>a\<close>, each is non-empty and
  ends where the next starts, and the last ends at \<open>b\<close>.
\<close>

fun contiguous :: "nat \<Rightarrow> nodeInfo list \<Rightarrow> nat \<Rightarrow> bool" where
  "contiguous a [] b = (a = b)"
| "contiguous a (r # rs) b = (startOffset r = a \<and> a < endOffset r \<and> contiguous (endOffset r) rs b)"

text \<open>
  A range of the document that is not collapsed: both containers are nodes of the
  document, the offsets lie within them, and the start point is before the end point.
\<close>

definition validRange :: "node \<Rightarrow> range \<Rightarrow> bool" where
  "validRange b r =
     ((case nodeAt b (startContainer r) of None \<Rightarrow> False | Some a \<Rightarrow> startOff r \<le> nodeLength a)
      \<and> (case nodeAt b (endContainer r) of None \<Rightarrow> False | Some z \<Rightarrow> endOff r \<le> nodeLength z)
      \<and> comparePoints (startContainer r) (startOff r) (endContainer r) (endOff r) = Before)"

section \<open>Example documents\<close>

text \<open>One paragraph in which the search text occurs twice.\<close>


definition doc1 :: node where
  "doc1 = Element ''body'' [] [] [Element ''p'' [] [] [Text ''cat dog cat bird'']]"

text \<open>A paragraph whose middle part is already wrapped in a highlight.\<close>

definition doc2 :: node where
  "doc2 = Element ''body'' [] [] [Element ''p'' [] []
     [Text ''foo'', Element ''span'' [''mark2link-highlight''] [(''data-highlight-id'', ''X'')] [Text ''mid''], Text ''bar'']]"

text \<open>Two paragraphs, hence two runs that meet at offset 2.\<close>

definition doc3 :: node where
  "doc3 = Element ''body'' [] [] [Element ''p'' [] [] [Text ''ab''], Element ''p'' [] [] [Text ''cd'']]"

text \<open>A white-space text node before a paragraph; a selection may start in it.\<close>

definition doc4 :: node where
  "doc4 = Element ''body'' [] [] [Text '' '', Element ''p'' [] [] [Text ''Hello world'']]"

definition env0 :: captureEnv where
  "env0 = \<lparr>newId = ''hl-1-a'', href = ''https://example.org/page#top'', title = ''Page'', now = ''t''\<rparr>"

text \<open>A page entered with a fragment that names a highlight.\<close>

definition scroll0 :: scrollState where
  "scroll0 = \<lparr>host = ''example.org'', pathname = ''/page'', search = ''?x=1'',
               locationHash = ''#sensenote-hl-1'', scrolledTo = [], queries = 0, elapsed = 0\<rparr>"

text \<open>
  The same for the address \<^verbatim>\<open>https://example.org//docs#sensenote-hl-1\<close>, whose path starts
  with two slashes.
\<close>

definition scrollSlashes :: scrollState where
  "scrollSlashes = \<lparr>host = ''example.org'', pathname = ''//docs'', search = [],
               locationHash = ''#sensenote-hl-1'', scrolledTo = [], queries = 0, elapsed = 0\<rparr>"

text \<open>
  Documents as \<^verbatim>\<open>querySelector\<close> meets them: one that never holds the element, one that
  holds it from the start, one in which the element of the id \<^verbatim>\<open>hl-1\<close> is there from the
  third attempt on, and a browser that cannot parse the selector.
\<close>

definition neverFound :: "string \<Rightarrow> nat \<Rightarrow> queryResult" where
  "neverFound selector k = NotFound"

definition foundAtOnce :: "string \<Rightarrow> nat \<Rightarrow> queryResult" where
  "foundAtOnce selector k = Found"

definition foundAtThird :: "string \<Rightarrow> nat \<Rightarrow> queryResult" where
  "foundAtThird selector k = (if selector = selectorFor ''hl-1'' \<and> 3 \<le> k then Found else NotFound)"

definition selectorRejected :: "string \<Rightarrow> nat \<Rightarrow> queryResult" where
  "selectorRejected selector k = SelectorError"

text \<open>A page with nothing on it but its document.\<close>

definition emptyPage :: "node \<Rightarrow> page" where
  "emptyPage b = \<lparr>body = b, highlights = [], storage = [], toasts = []\<rparr>"

text \<open>
  A paragraph of a bold and an italic element; the text of the bold element starts with a
  space. The selection \<open>selA\<close> goes from behind that space to the end of the italic text.
\<close>

definition docA :: node where
  "docA = Element ''body'' [] []
     [Element ''p'' [] [] [Element ''b'' [] [] [Text '' foo''], Element ''i'' [] [] [Text ''baz'']]]"

definition selA :: range where
  "selA = \<lparr>startContainer = [0, 0, 0], startOff = 1, endContainer = [0, 1, 0], endOff = 3\<rparr>"

text \<open>In the same document, the selection of \<^verbatim>\<open>foo\<close> inside the bold text.\<close>

definition selP :: range where
  "selP = \<lparr>startContainer = [0, 0, 0], startOff = 1, endContainer = [0, 0, 0], endOff = 4\<rparr>"

text \<open>
  A paragraph of a bold element, an italic element and a text, with two stored highlights
  that overlap: \<^verbatim>\<open>foobar\<close> and \<^verbatim>\<open>bar b\<close>.
\<close>

definition docC :: node where
  "docC = Element ''body'' [] []
     [Element ''p'' [] []
        [Element ''b'' [] [] [Text ''foo''], Element ''i'' [] [] [Text ''bar''], Text '' baz'']]"

definition hX :: highlight where
  "hX = \<lparr>hlId = ''X'', hlText = ''foobar'', textBefore = Some [], textAfter = Some '' baz'',
          url = ''https://example.org/page'', pageTitle = ''Page'', hlStartOffset = 0,
          hlEndOffset = 6, color = ''#ffeb3b'', hlNote = [], category = [], timestamp = ''t''\<rparr>"

definition hY :: highlight where
  "hY = \<lparr>hlId = ''Y'', hlText = ''bar b'', textBefore = Some ''foo'', textAfter = Some ''az'',
          url = ''https://example.org/page'', pageTitle = ''Page'', hlStartOffset = 3,
          hlEndOffset = 8, color = ''#90caf9'', hlNote = [], category = [], timestamp = ''t''\<rparr>"

text \<open>
  One paragraph and three stored highlights, of which the second has a text that the
  document does not hold.
\<close>

definition doc5 :: node where
  "doc5 = Element ''body'' [] [] [Element ''p'' [] [] [Text ''alpha beta gamma'']]"

definition hAlpha :: highlight where
  "hAlpha = \<lparr>hlId = ''A'', hlText = ''alpha'', textBefore = Some [], textAfter = Some '' beta gamma'',
          url = ''https://example.org/page'', pageTitle = ''Page'', hlStartOffset = 0,
          hlEndOffset = 5, color = ''#ffeb3b'', hlNote = [], category = [], timestamp = ''t''\<rparr>"

definition hMissing :: highlight where
  "hMissing = \<lparr>hlId = ''M'', hlText = ''delta'', textBefore = Some ''beta '', textAfter = Some [],
          url = ''https://example.org/page'', pageTitle = ''Page'', hlStartOffset = 11,
          hlEndOffset = 16, color = ''#ffeb3b'', hlNote = [], category = [], timestamp = ''t''\<rparr>"

definition hGamma :: highlight where
  "hGamma = \<lparr>hlId = ''G'', hlText = ''gamma'', textBefore = Some ''alpha beta '', textAfter = Some [],
          url = ''https://example.org/page'', pageTitle = ''Page'', hlStartOffset = 11,
          hlEndOffset = 16, color = ''#a5d6a7'', hlNote = [], category = [], timestamp = ''t''\<rparr>"

definition page5 :: page where
  "page5 = \<lparr>body = doc5, highlights = [hAlpha, hMissing, hGamma],
             storage = [hAlpha, hMissing, hGamma], toasts = []\<rparr>"
section \<open>Properties of the string primitives\<close>

lemma occursAt_0: "occursAt s pat 0 \<longleftrightarrow> take (length pat) s = pat"
  unfolding occursAt_def
  by (metis add_0 drop0 length_take min.absorb_iff2 min.commute)

lemma occursAt_Cons_Suc: "occursAt (c # cs) pat (Suc q) \<longleftrightarrow> occursAt cs pat q"
  by (simp add: occursAt_def)

lemma occursAt_Nil: "occursAt [] pat p \<longleftrightarrow> pat = [] \<and> p = 0"
  by (auto simp: occursAt_def)

lemma indexOf_Some:
  "indexOf s pat = Some p \<Longrightarrow> occursAt s pat p \<and> (\<forall>q<p. \<not> occursAt s pat q)"
proof (induction s arbitrary: p)
  case Nil
  then show ?case by (auto simp: occursAt_Nil split: if_splits)
next
  case (Cons c cs)
  show ?case
  proof (cases "take (length pat) (c # cs) = pat")
    case True
    with Cons.prems have "p = 0" by simp
    with True show ?thesis by (simp add: occursAt_0)
  next
    case False
    with Cons.prems obtain p' where p': "indexOf cs pat = Some p'" "p = Suc p'"
      by auto
    from Cons.IH [OF p'(1)] have ih: "occursAt cs pat p'" "\<forall>q<p'. \<not> occursAt cs pat q"
      by auto
    have "\<not> occursAt (c # cs) pat q" if "q < p" for q
    proof (cases q)
      case 0
      with False show ?thesis by (simp add: occursAt_0)
    next
      case (Suc q')
      with that p'(2) ih(2) show ?thesis by (simp add: occursAt_Cons_Suc)
    qed
    with ih(1) p'(2) show ?thesis by (simp add: occursAt_Cons_Suc)
  qed
qed

lemma indexOf_None: "indexOf s pat = None \<Longrightarrow> \<not> occursAt s pat p"
proof (induction s arbitrary: p)
  case Nil
  then show ?case by (auto simp: occursAt_Nil split: if_splits)
next
  case (Cons c cs)
  from Cons.prems have ne: "take (length pat) (c # cs) \<noteq> pat" and n: "indexOf cs pat = None"
    by (auto split: if_splits)
  show ?case
  proof (cases p)
    case 0
    with ne show ?thesis by (simp add: occursAt_0)
  next
    case (Suc p')
    with Cons.IH [OF n] show ?thesis by (simp add: occursAt_Cons_Suc)
  qed
qed

lemma indexOf_leftmost:
  assumes "occursAt s pat p" and "\<forall>q<p. \<not> occursAt s pat q"
  shows "indexOf s pat = Some p"
proof (cases "indexOf s pat")
  case None
  with assms(1) show ?thesis using indexOf_None by blast
next
  case (Some r)
  from indexOf_Some [OF Some] have r: "occursAt s pat r" "\<forall>q<r. \<not> occursAt s pat q" by auto
  have "r = p"
    using assms r by (meson linorder_neqE_nat)
  with Some show ?thesis by simp
qed

lemma indexOf_empty: "indexOf s [] = Some 0"
  by (cases s) auto

section \<open>Properties of resolution\<close>

text \<open>
  Claim C10. Called with a missing or an empty search text, \<^verbatim>\<open>findTextWithContext\<close>
  returns \<^verbatim>\<open>null\<close> whatever the document and the context are, although the empty string
  would be found at offset 0 of any linear text.
\<close>

theorem empty_text_never_resolves:
  "findTextWithContext b None ctxBefore ctxAfter = None
   \<and> findTextWithContext b (Some []) ctxBefore ctxAfter = None
   \<and> indexOf fullText [] = Some 0"
  by (simp add: findTextWithContext_def indexOf_empty)

theorem empty_text_never_resolves_witness:
  "findTextWithContext doc1 None (Some ''dog '') None = None
   \<and> findTextWithContext doc1 (Some []) (Some ''dog '') None = None
   \<and> indexOf ''cat dog cat bird'' [] = Some 0"
  using empty_text_never_resolves [of doc1 "Some ''dog ''" None "''cat dog cat bird''"] by simp

text \<open>
  Claim C3. Whenever resolution returns a range, the string content of that range is the
  search text exactly; and when the range built from the located nodes has another string
  content, the match is discarded and the result is \<^verbatim>\<open>null\<close>.
\<close>

theorem resolved_range_text_verified:
  "(findTextWithContext b searchText ctxBefore ctxAfter = Some r
      \<longrightarrow> searchText = Some (rangeToString b r))
   \<and> (locate idx (idx + length st) textNodes None None = (Some (sn, so), Some (en, eo))
      \<and> setStart b createRange sn so = Some r1 \<and> setEnd b r1 en eo = Some r2
      \<and> rangeToString b r2 \<noteq> st
      \<longrightarrow> materialize b textNodes st idx = None)"
proof -
  have m: "materialize b tns s i = Some r \<Longrightarrow> rangeToString b r = s" for tns s i
    unfolding materialize_def
    by (auto split: prod.splits option.splits if_splits)
  have "findTextWithContext b searchText ctxBefore ctxAfter = Some r
      \<Longrightarrow> searchText = Some (rangeToString b r)"
    unfolding findTextWithContext_def
    by (auto split: option.splits if_splits prod.splits dest: m)
  moreover have "locate idx (idx + length st) textNodes None None = (Some (sn, so), Some (en, eo))
      \<and> setStart b createRange sn so = Some r1 \<and> setEnd b r1 en eo = Some r2
      \<and> rangeToString b r2 \<noteq> st
      \<longrightarrow> materialize b textNodes st idx = None"
    by (simp add: materialize_def)
  ultimately show ?thesis by blast
qed

theorem resolved_range_text_verified_witness:
  "findTextWithContext doc1 (Some ''cat'') None None
     = Some \<lparr>startContainer = [0, 0], startOff = 0, endContainer = [0, 0], endOff = 3\<rparr>
   \<and> rangeToString doc1 \<lparr>startContainer = [0, 0], startOff = 0, endContainer = [0, 0], endOff = 3\<rparr> = ''cat''
   \<and> rangeToString doc2 \<lparr>startContainer = [0, 0], startOff = 0, endContainer = [0, 2], endOff = 3\<rparr> = ''foomidbar''
   \<and> materialize doc2 (fst (linearizeRestore doc2)) ''foobar'' 0 = None"
proof -
  let ?r = "\<lparr>startContainer = [0, 0], startOff = 0, endContainer = [0, 0], endOff = 3\<rparr>"
  let ?r2 = "\<lparr>startContainer = [0, 0], startOff = 0, endContainer = [0, 2], endOff = 3\<rparr>"
  let ?r1 = "\<lparr>startContainer = [0, 0], startOff = 0, endContainer = [0, 0], endOff = 0\<rparr>"
  have f: "findTextWithContext doc1 (Some ''cat'') None None = Some ?r"
    by code_simp
  have l: "locate 0 (0 + length ''foobar'') (fst (linearizeRestore doc2)) None None
             = (Some ([0, 0], 0), Some ([0, 2], 3))"
    by code_simp
  have s: "setStart doc2 createRange [0, 0] 0 = Some ?r1" by code_simp
  have e: "setEnd doc2 ?r1 [0, 2] 3 = Some ?r2" by code_simp
  have t: "rangeToString doc2 ?r2 = ''foomidbar''" by code_simp
  have a: "searchText = Some (rangeToString doc1 ?r)" if "searchText = Some ''cat''" for searchText
    using resolved_range_text_verified [of doc1 searchText None None ?r] f that by simp
  have b: "materialize doc2 (fst (linearizeRestore doc2)) ''foobar'' 0 = None"
    using resolved_range_text_verified [of doc2 None None None ?r 0 "''foobar''"
        "fst (linearizeRestore doc2)" "[0, 0]" 0 "[0, 2]" 3 ?r1 ?r2] l s e t
    by simp
  from a [of "Some ''cat''"] f t b show ?thesis by simp
qed

text \<open>
  Claim C1. For a non-empty search text and a context of which at least one side is
  non-empty: when \<^verbatim>\<open>textBefore + searchText + textAfter\<close> occurs in the linear text at
  a position \<open>p\<close>, the search finds its leftmost occurrence \<open>p'\<close>, which is \<open>p\<close> itself
  unless the pattern also occurs before \<open>p\<close>; the offset selected as the start of the
  match is \<open>p' + length textBefore\<close>, and the resolver materializes the range from that
  offset, also when the bare search text occurs earlier in the document.
\<close>

theorem context_match_preferred:
  assumes "st \<noteq> []" and "tb \<noteq> [] \<or> ta \<noteq> []"
    and "linearizeRestore b = (textNodes, fullText)"
    and "occursAt fullText (tb @ st @ ta) p"
  shows "\<exists>p'\<le>p. occursAt fullText (tb @ st @ ta) p'
           \<and> (\<forall>q<p'. \<not> occursAt fullText (tb @ st @ ta) q)
           \<and> searchIndex fullText st (Some tb) (Some ta) = Some (p' + length tb)
           \<and> findTextWithContext b (Some st) (Some tb) (Some ta)
               = materialize b textNodes st (p' + length tb)
           \<and> ((\<forall>q<p. \<not> occursAt fullText (tb @ st @ ta) q) \<longrightarrow> p' = p)"
proof -
  obtain p' where i: "indexOf fullText (tb @ st @ ta) = Some p'"
    using assms(4) indexOf_None [of fullText "tb @ st @ ta" p]
    by (cases "indexOf fullText (tb @ st @ ta)") auto
  from indexOf_Some [OF i]
  have o: "occursAt fullText (tb @ st @ ta) p'"
    and l: "\<forall>q<p'. \<not> occursAt fullText (tb @ st @ ta) q"
    by auto
  from l assms(4) have le: "p' \<le> p" by (meson not_le)
  have s: "searchIndex fullText st (Some tb) (Some ta) = Some (p' + length tb)"
    using assms(2) i by (auto simp: searchIndex_def orEmpty_def truthy_def)
  have f: "findTextWithContext b (Some st) (Some tb) (Some ta)
      = materialize b textNodes st (p' + length tb)"
    using s assms(1,3) by (simp add: findTextWithContext_def)
  have u: "(\<forall>q<p. \<not> occursAt fullText (tb @ st @ ta) q) \<longrightarrow> p' = p"
    using o le by (auto simp: le_less)
  from le o l s f u show ?thesis by blast
qed

theorem context_match_preferred_witness:
  "findTextWithContext doc1 (Some ''cat'') (Some ''dog '') (Some '' bird'')
     = Some \<lparr>startContainer = [0, 0], startOff = 8, endContainer = [0, 0], endOff = 11\<rparr>
   \<and> searchIndex ''cat dog cat bird'' ''cat'' (Some ''dog '') (Some '' bird'') = Some 8
   \<and> indexOf ''cat dog cat bird'' ''cat'' = Some 0"
proof -
  let ?l = "[\<lparr>node = [0, 0], startOffset = 0, endOffset = 16, nodeText = ''cat dog cat bird''\<rparr>]"
  have l: "linearizeRestore doc1 = (?l, ''cat dog cat bird'')"
    by code_simp
  have o: "occursAt ''cat dog cat bird'' (''dog '' @ ''cat'' @ '' bird'') 4"
    by code_simp
  have n: "\<forall>q<4. \<not> occursAt ''cat dog cat bird'' (''dog '' @ ''cat'' @ '' bird'') q"
  proof (intro allI impI)
    fix q :: nat assume "q < 4"
    then have "q = 0 \<or> q = 1 \<or> q = 2 \<or> q = 3" by arith
    then show "\<not> occursAt ''cat dog cat bird'' (''dog '' @ ''cat'' @ '' bird'') q"
      by (auto simp: occursAt_def)
  qed
  have m: "materialize doc1 ?l ''cat'' (4 + length ''dog '')
     = Some \<lparr>startContainer = [0, 0], startOff = 8, endContainer = [0, 0], endOff = 11\<rparr>"
    by code_simp
  have i: "indexOf ''cat dog cat bird'' ''cat'' = Some 0" by code_simp
  from context_match_preferred [OF _ _ l o] n
  have "searchIndex ''cat dog cat bird'' ''cat'' (Some ''dog '') (Some '' bird'') = Some (4 + length ''dog '')
     \<and> findTextWithContext doc1 (Some ''cat'') (Some ''dog '') (Some '' bird'')
         = materialize doc1 ?l ''cat'' (4 + length ''dog '')"
    by auto
  with m i show ?thesis by simp
qed

section \<open>Properties of the materializer\<close>

lemma locate_find:
  "locate ts te rs s e =
     (case s of Some x \<Rightarrow> Some x
      | None \<Rightarrow> map_option (\<lambda>ni. (node ni, ts - startOffset ni))
                  (find (\<lambda>ni. startOffset ni \<le> ts \<and> ts < endOffset ni) rs),
      case e of Some x \<Rightarrow> Some x
      | None \<Rightarrow> map_option (\<lambda>ni. (node ni, te - startOffset ni))
                  (find (\<lambda>ni. startOffset ni < te \<and> te \<le> endOffset ni) rs))"
  by (induction rs arbitrary: s e) (auto simp: Let_def split: option.splits)

lemma collect_contiguous:
  assumes "\<forall>n\<in>set ns. tnData n \<noteq> []"
  shows "\<exists>new. collect ns acc full = (acc @ new, full @ concat (map tnData ns))
           \<and> contiguous (length full) new (length full + length (concat (map tnData ns)))
           \<and> map node new = map tnPath ns"
  using assms
proof (induction ns arbitrary: acc full)
  case Nil
  then show ?case by simp
next
  case (Cons n ns)
  let ?r = "\<lparr>node = tnPath n, startOffset = length full,
             endOffset = length full + length (tnData n), nodeText = tnData n\<rparr>"
  from Cons.prems have ne: "tnData n \<noteq> []" and rest: "\<forall>n\<in>set ns. tnData n \<noteq> []" by auto
  from Cons.IH [OF rest, of "acc @ [?r]" "full @ tnData n"]
  obtain new where new: "collect ns (acc @ [?r]) (full @ tnData n)
        = ((acc @ [?r]) @ new, (full @ tnData n) @ concat (map tnData ns))"
      "contiguous (length (full @ tnData n)) new
         (length (full @ tnData n) + length (concat (map tnData ns)))"
      "map node new = map tnPath ns"
    by blast
  have "collect (n # ns) acc full = (acc @ (?r # new), full @ concat (map tnData (n # ns)))"
    using new(1) by simp
  moreover have "contiguous (length full) (?r # new)
      (length full + length (concat (map tnData (n # ns))))"
    using new(2) ne by (simp add: add.assoc)
  moreover have "map node (?r # new) = map tnPath (n # ns)"
    using new(3) by simp
  ultimately show ?case by blast
qed

lemma trim_Nil: "trim [] = []"
  by (simp add: trim_def)

lemma accepted_nonempty: "acceptNodeRestore tn \<Longrightarrow> tnData tn \<noteq> []"
  by (auto simp: acceptNodeRestore_def trim_Nil)

lemma linearizeRestore_contiguous:
  assumes "linearizeRestore b = (textNodes, fullText)"
  shows "contiguous 0 textNodes (length fullText)"
proof -
  let ?ns = "filter acceptNodeRestore (allTextNodes b)"
  have "\<forall>n\<in>set ?ns. tnData n \<noteq> []" by (auto dest: accepted_nonempty)
  from collect_contiguous [OF this, of "[]" "[]"] assms
  show ?thesis by (auto simp: linearizeRestore_def)
qed

lemma contiguous_start_run:
  "contiguous a rs b \<Longrightarrow> a \<le> t \<Longrightarrow> t < b
     \<Longrightarrow> \<exists>ni\<in>set rs. startOffset ni \<le> t \<and> t < endOffset ni"
proof (induction rs arbitrary: a)
  case Nil
  then show ?case by simp
next
  case (Cons r rs)
  show ?case
  proof (cases "t < endOffset r")
    case True
    with Cons.prems show ?thesis by auto
  next
    case False
    with Cons.prems Cons.IH [of "endOffset r"] show ?thesis by auto
  qed
qed

lemma contiguous_end_run:
  "contiguous a rs b \<Longrightarrow> a < t \<Longrightarrow> t \<le> b
     \<Longrightarrow> \<exists>ni\<in>set rs. startOffset ni < t \<and> t \<le> endOffset ni"
proof (induction rs arbitrary: a)
  case Nil
  then show ?case by simp
next
  case (Cons r rs)
  show ?case
  proof (cases "t \<le> endOffset r")
    case True
    with Cons.prems show ?thesis by auto
  next
    case False
    with Cons.prems Cons.IH [of "endOffset r"] show ?thesis by auto
  qed
qed

lemma find_index:
  assumes "\<exists>x\<in>set xs. P x"
  shows "\<exists>i<length xs. P (xs ! i) \<and> find P xs = Some (xs ! i)"
proof -
  from assms have "find P xs \<noteq> None" by (auto simp: find_None_iff)
  then obtain x where "find P xs = Some x" by auto
  then show ?thesis by (auto simp: find_Some_iff)
qed

text \<open>
  Claim C8, as amended. For a span \<open>[targetStart, targetEnd)\<close> that is not empty and
  lies in the linear text, the loop maps the start offset to a run whose half-open
  interval \<open>[startOffset, endOffset)\<close> holds it, and the end offset to a run whose interval
  \<open>(startOffset, endOffset]\<close>, open on the left and closed on the right, holds it, each
  with the offset local to the run. So an end offset on a run boundary is mapped to the
  end of the earlier run.
\<close>

theorem boundary_mapping:
  assumes "linearizeRestore b = (textNodes, fullText)"
    and "targetStart < targetEnd" and "targetEnd \<le> length fullText"
  shows "\<exists>i j. i < length textNodes \<and> j < length textNodes
     \<and> startOffset (textNodes ! i) \<le> targetStart \<and> targetStart < endOffset (textNodes ! i)
     \<and> startOffset (textNodes ! j) < targetEnd \<and> targetEnd \<le> endOffset (textNodes ! j)
     \<and> locate targetStart targetEnd textNodes None None
         = (Some (node (textNodes ! i), targetStart - startOffset (textNodes ! i)),
            Some (node (textNodes ! j), targetEnd - startOffset (textNodes ! j)))"
proof -
  have c: "contiguous 0 textNodes (length fullText)"
    using assms(1) by (rule linearizeRestore_contiguous)
  have "\<exists>ni\<in>set textNodes. startOffset ni \<le> targetStart \<and> targetStart < endOffset ni"
    using c assms(2,3) by (intro contiguous_start_run [of 0 _ "length fullText"]) auto
  from find_index [OF this] obtain i where i: "i < length textNodes"
      "startOffset (textNodes ! i) \<le> targetStart" "targetStart < endOffset (textNodes ! i)"
      "find (\<lambda>ni. startOffset ni \<le> targetStart \<and> targetStart < endOffset ni) textNodes
         = Some (textNodes ! i)"
    by blast
  have "\<exists>ni\<in>set textNodes. startOffset ni < targetEnd \<and> targetEnd \<le> endOffset ni"
    using c assms(2,3) by (intro contiguous_end_run [of 0 _ "length fullText"]) auto
  from find_index [OF this] obtain j where j: "j < length textNodes"
      "startOffset (textNodes ! j) < targetEnd" "targetEnd \<le> endOffset (textNodes ! j)"
      "find (\<lambda>ni. startOffset ni < targetEnd \<and> targetEnd \<le> endOffset ni) textNodes
         = Some (textNodes ! j)"
    by blast
  have "locate targetStart targetEnd textNodes None None
         = (Some (node (textNodes ! i), targetStart - startOffset (textNodes ! i)),
            Some (node (textNodes ! j), targetEnd - startOffset (textNodes ! j)))"
    by (simp add: locate_find i(4) j(4))
  with i(1-3) j(1-3) show ?thesis by blast
qed

theorem boundary_mapping_witness:
  "(\<exists>i j. i < length (fst (linearizeRestore doc3)) \<and> j < length (fst (linearizeRestore doc3))
     \<and> startOffset (fst (linearizeRestore doc3) ! i) \<le> 0 \<and> 0 < endOffset (fst (linearizeRestore doc3) ! i)
     \<and> startOffset (fst (linearizeRestore doc3) ! j) < 2 \<and> 2 \<le> endOffset (fst (linearizeRestore doc3) ! j)
     \<and> locate 0 2 (fst (linearizeRestore doc3)) None None
         = (Some (node (fst (linearizeRestore doc3) ! i), 0 - startOffset (fst (linearizeRestore doc3) ! i)),
            Some (node (fst (linearizeRestore doc3) ! j), 2 - startOffset (fst (linearizeRestore doc3) ! j))))
   \<and> locate 0 2 (fst (linearizeRestore doc3)) None None = (Some ([0, 0], 0), Some ([0, 0], 2))"
proof -
  have l: "linearizeRestore doc3 = (fst (linearizeRestore doc3), ''abcd'')" by code_simp
  have e: "locate 0 2 (fst (linearizeRestore doc3)) None None = (Some ([0, 0], 0), Some ([0, 0], 2))"
    by code_simp
  from boundary_mapping [OF l, of 0 2] e show ?thesis by simp
qed

text \<open>
  Claim C8 as stated fails: in two runs that meet at offset 2, the end offset 2 of the span
  of \<^verbatim>\<open>ab\<close> is mapped to offset 2 of the first run, not to offset 0 of the second.
\<close>

theorem end_on_boundary_counterexample:
  "linearizeRestore doc3
     = ([\<lparr>node = [0, 0], startOffset = 0, endOffset = 2, nodeText = ''ab''\<rparr>,
         \<lparr>node = [1, 0], startOffset = 2, endOffset = 4, nodeText = ''cd''\<rparr>], ''abcd'')
   \<and> searchIndex ''abcd'' ''ab'' None None = Some 0
   \<and> snd (locate 0 (0 + length ''ab'') (fst (linearizeRestore doc3)) None None) = Some ([0, 0], 2)
   \<and> snd (locate 0 (0 + length ''ab'') (fst (linearizeRestore doc3)) None None) \<noteq> Some ([1, 0], 0)
   \<and> findTextWithContext doc3 (Some ''ab'') None None
       = Some \<lparr>startContainer = [0, 0], startOff = 0, endContainer = [0, 0], endOff = 2\<rparr>"
  by code_simp

section \<open>Properties of capture\<close>

text \<open>
  When the start container is not among the collected nodes, the loop leaves both offsets
  at 0, and the context is cut out at the start of the full text.
\<close>

lemma locateStart_not_located:
  "startContainer r \<notin> set (map node textNodes) \<Longrightarrow> locateStart textNodes r t offsets = offsets"
  by (induction textNodes) auto

lemma captureContext_not_located:
  assumes "linearizeCapture b = (textNodes, fullText)"
    and "startContainer r \<notin> set (map node textNodes)"
  shows "captureContext b r t = ([], take contextLength fullText, 0, 0)"
proof -
  have "locateStart textNodes r t (0, 0) = (0, 0)"
    using assms(2) by (rule locateStart_not_located)
  moreover have "substring fullText 0 (min (length fullText) contextLength) = take contextLength fullText"
    by (simp add: substring_def Let_def min_def)
  moreover have "substring fullText 0 0 = []" by (simp add: substring_def)
  ultimately show ?thesis using assms(1) by (simp add: captureContext_def)
qed

text \<open>
  Claim C6 says that a capture whose start node cannot be located among the runs still
  produces the anchor with the selected text, and that both context fields are then
  empty. The anchor is produced, but the context is not empty: when the start container
  is not among the collected nodes (here a white-space text node, which the walk rejects),
  both offsets stay 0 and the context is still cut out of the full text, so
  \<^verbatim>\<open>textBefore\<close> is empty and \<^verbatim>\<open>textAfter\<close> is the first 50 characters of the linear text.
\<close>

theorem capture_context_not_found:
  "[0] \<notin> set (map node (fst (linearizeCapture doc4)))
   \<and> captureContext doc4 \<lparr>startContainer = [0], startOff = 0, endContainer = [1, 0], endOff = 11\<rparr>
        ''Hello world'' = ([], ''Hello world'', 0, 0)
   \<and> map_option textAfter
        (highlightData doc4 env0 \<lparr>startContainer = [0], startOff = 0, endContainer = [1, 0], endOff = 11\<rparr>
           (Some ''Hello world'') ''#ffeb3b'') = Some (Some ''Hello world'')"
  by code_simp

text \<open>
  The two walks give the same result on a document in which no text node is the child of
  an element with the marker class.
\<close>

lemma walks_agree_without_wrappers:
  assumes "\<forall>tn\<in>set (allTextNodes b). markerClass \<notin> set (tnParentClasses tn)"
  shows "linearizeCapture b = linearizeRestore b"
proof -
  have "filter acceptNodeCapture (allTextNodes b) = filter acceptNodeRestore (allTextNodes b)"
    using assms by (intro filter_cong) (auto simp: acceptNodeCapture_def acceptNodeRestore_def)
  then show ?thesis by (simp add: linearizeCapture_def linearizeRestore_def)
qed

text \<open>
  Claim C7 says that on the same document the walk of capture and the walk of resolution
  give the same linear text, both leaving out the text of highlight wrappers. On a
  document that holds a wrapper they differ: the walk of capture keeps the text below
  the wrapper, the walk of resolution leaves it out.
\<close>

theorem capture_walk_differs:
  "snd (linearizeCapture doc2) = ''foomidbar'' \<and> snd (linearizeRestore doc2) = ''foobar''"
  by code_simp

section \<open>The scroll to a highlight named by the fragment\<close>

declare tryScroll.simps [simp del]

lemma finalState_simps:
  "finalState (Inl e) = errorState e" "finalState (Inr s) = s"
  by (simp_all add: finalState_def)

lemma replaceState_queries: "queries (finalState (replaceState a s)) = queries s"
  by (simp add: replaceState_def finalState_def Let_def)

lemma replaceState_allowed:
  "take 2 a \<noteq> ''//'' \<Longrightarrow> replaceState a s = Inr (s\<lparr>locationHash := []\<rparr>)"
  by (simp add: replaceState_def)

lemma replaceState_refused:
  "take 2 a = ''//'' \<Longrightarrow> takeWhile (\<lambda>ch. ch \<noteq> CHR ''/'' \<and> ch \<noteq> CHR ''?'')
         (dropWhile (\<lambda>ch. ch = CHR ''/'') a) \<noteq> host s
     \<Longrightarrow> replaceState a s = Inl (SecurityError s)"
  by (simp add: replaceState_def Let_def)

lemma tryScroll_queries:
  "queries (finalState (tryScroll q hid a s)) \<le> queries s + max 1 (maxAttempts - a)"
proof (induction q hid a s rule: tryScroll.induct)
  case (1 q hid a s)
  show ?case
  proof (cases "q (selectorFor hid) (a + 1) = NotFound \<and> a + 1 < maxAttempts")
    case True
    let ?s' = "s\<lparr>queries := queries s + 1, elapsed := elapsed s + 500\<rparr>"
    have "tryScroll q hid a s = tryScroll q hid (a + 1) ?s'"
      using True by (subst tryScroll.simps) (simp add: Let_def)
    moreover have "queries (finalState (tryScroll q hid (a + 1) ?s'))
        \<le> queries ?s' + max 1 (maxAttempts - (a + 1))"
      using "1.IH" [of "a + 1" "s\<lparr>queries := queries s + 1\<rparr>"] True by simp
    moreover have "queries ?s' + max 1 (maxAttempts - (a + 1)) \<le> queries s + max 1 (maxAttempts - a)"
      using True by (auto simp: max_def)
    ultimately show ?thesis by simp
  next
    case False
    then show ?thesis
      by (subst tryScroll.simps)
         (auto simp: Let_def replaceState_queries finalState_simps split: queryResult.splits)
  qed
qed

lemma tryScroll_never_found:
  "a < maxAttempts \<Longrightarrow> (\<forall>k. a < k \<and> k \<le> maxAttempts \<longrightarrow> q (selectorFor hid) k = NotFound)
     \<Longrightarrow> tryScroll q hid a s
         = replaceState (pathname s @ search s)
             (s\<lparr>queries := queries s + (maxAttempts - a),
                elapsed := elapsed s + 500 * (maxAttempts - a - 1)\<rparr>)"
proof (induction q hid a s rule: tryScroll.induct)
  case (1 q hid a s)
  from "1.prems" have np: "q (selectorFor hid) (a + 1) = NotFound" by simp
  show ?case
  proof (cases "a + 1 < maxAttempts")
    case True
    let ?s' = "s\<lparr>queries := queries s + 1, elapsed := elapsed s + 500\<rparr>"
    have "tryScroll q hid a s = tryScroll q hid (a + 1) ?s'"
      using True np by (subst tryScroll.simps) (simp add: Let_def)
    also have "\<dots> = replaceState (pathname ?s' @ search ?s')
             (?s'\<lparr>queries := queries ?s' + (maxAttempts - (a + 1)),
                elapsed := elapsed ?s' + 500 * (maxAttempts - (a + 1) - 1)\<rparr>)"
      using "1.IH" [of "a + 1" "s\<lparr>queries := queries s + 1\<rparr>"] True np "1.prems" by simp
    also have "\<dots> = replaceState (pathname s @ search s)
             (s\<lparr>queries := queries s + (maxAttempts - a),
                elapsed := elapsed s + 500 * (maxAttempts - a - 1)\<rparr>)"
    proof -
      have pa: "pathname ?s' @ search ?s' = pathname s @ search s" by simp
      have st: "?s'\<lparr>queries := queries ?s' + (maxAttempts - (a + 1)),
                elapsed := elapsed ?s' + 500 * (maxAttempts - (a + 1) - 1)\<rparr>
          = s\<lparr>queries := queries s + (maxAttempts - a),
                elapsed := elapsed s + 500 * (maxAttempts - a - 1)\<rparr>"
        using True by (cases s) (simp, arith)
      show ?thesis by (simp only: pa st)
    qed
    finally show ?thesis .
  next
    case False
    with "1.prems" have "maxAttempts - a = 1" by simp
    with False np show ?thesis
      by (subst tryScroll.simps) (simp add: Let_def)
  qed
qed

lemma tryScroll_found:
  "a < k \<Longrightarrow> k \<le> maxAttempts \<Longrightarrow> q (selectorFor hid) k = Found \<Longrightarrow> (\<forall>j. a < j \<and> j < k \<longrightarrow> q (selectorFor hid) j = NotFound)
     \<Longrightarrow> tryScroll q hid a s
         = replaceState (pathname s @ search s)
             (s\<lparr>scrolledTo := scrolledTo s @ [hid], queries := queries s + (k - a),
                elapsed := elapsed s + 500 * (k - a - 1) + 1000\<rparr>)"
proof (induction q hid a s rule: tryScroll.induct)
  case (1 q hid a s)
  show ?case
  proof (cases "k = a + 1")
    case True
    with "1.prems" show ?thesis
      by (subst tryScroll.simps, cases s) (simp add: Let_def)
  next
    case False
    with "1.prems" have lt: "a + 1 < k" and np: "q (selectorFor hid) (a + 1) = NotFound" and m: "a + 1 < maxAttempts"
      by auto
    let ?s' = "s\<lparr>queries := queries s + 1, elapsed := elapsed s + 500\<rparr>"
    have "tryScroll q hid a s = tryScroll q hid (a + 1) ?s'"
      using m np by (subst tryScroll.simps) (simp add: Let_def)
    also have "\<dots> = replaceState (pathname ?s' @ search ?s')
             (?s'\<lparr>scrolledTo := scrolledTo ?s' @ [hid], queries := queries ?s' + (k - (a + 1)),
              elapsed := elapsed ?s' + 500 * (k - (a + 1) - 1) + 1000\<rparr>)"
      using "1.IH" [of "a + 1" "s\<lparr>queries := queries s + 1\<rparr>"] m np lt "1.prems" by simp
    also have "\<dots> = replaceState (pathname s @ search s)
             (s\<lparr>scrolledTo := scrolledTo s @ [hid], queries := queries s + (k - a),
              elapsed := elapsed s + 500 * (k - a - 1) + 1000\<rparr>)"
    proof -
      have pa: "pathname ?s' @ search ?s' = pathname s @ search s" by simp
      have st: "?s'\<lparr>scrolledTo := scrolledTo ?s' @ [hid], queries := queries ?s' + (k - (a + 1)),
              elapsed := elapsed ?s' + 500 * (k - (a + 1) - 1) + 1000\<rparr>
          = s\<lparr>scrolledTo := scrolledTo s @ [hid], queries := queries s + (k - a),
              elapsed := elapsed s + 500 * (k - a - 1) + 1000\<rparr>"
        using lt by (cases s) (simp, arith)
      show ?thesis by (simp only: pa st)
    qed
    finally show ?thesis .
  qed
qed

lemma tryScroll_raises:
  "a < k \<Longrightarrow> k \<le> maxAttempts \<Longrightarrow> q (selectorFor hid) k = SelectorError \<Longrightarrow> (\<forall>j. a < j \<and> j < k \<longrightarrow> q (selectorFor hid) j = NotFound)
     \<Longrightarrow> tryScroll q hid a s
         = Inl (SyntaxError (s\<lparr>queries := queries s + (k - a),
                                elapsed := elapsed s + 500 * (k - a - 1)\<rparr>))"
proof (induction q hid a s rule: tryScroll.induct)
  case (1 q hid a s)
  show ?case
  proof (cases "k = a + 1")
    case True
    with "1.prems" show ?thesis
      by (subst tryScroll.simps) (simp add: Let_def)
  next
    case False
    with "1.prems" have lt: "a + 1 < k" and np: "q (selectorFor hid) (a + 1) = NotFound" and m: "a + 1 < maxAttempts"
      by auto
    let ?s' = "s\<lparr>queries := queries s + 1, elapsed := elapsed s + 500\<rparr>"
    have "tryScroll q hid a s = tryScroll q hid (a + 1) ?s'"
      using m np by (subst tryScroll.simps) (simp add: Let_def)
    also have "\<dots> = Inl (SyntaxError (?s'\<lparr>queries := queries ?s' + (k - (a + 1)),
              elapsed := elapsed ?s' + 500 * (k - (a + 1) - 1)\<rparr>))"
      using "1.IH" [of "a + 1" "s\<lparr>queries := queries s + 1\<rparr>"] m np lt "1.prems" by simp
    also have "\<dots> = Inl (SyntaxError (s\<lparr>queries := queries s + (k - a),
              elapsed := elapsed s + 500 * (k - a - 1)\<rparr>))"
    proof -
      have st: "?s'\<lparr>queries := queries ?s' + (k - (a + 1)),
              elapsed := elapsed ?s' + 500 * (k - (a + 1) - 1)\<rparr>
          = s\<lparr>queries := queries s + (k - a), elapsed := elapsed s + 500 * (k - a - 1)\<rparr>"
        using lt by (cases s) (simp, arith)
      show ?thesis by (simp only: st)
    qed
    finally show ?thesis .
  qed
qed

text \<open>
  What holds of every run: at most ten queries are made; a \<^verbatim>\<open>SyntaxError\<close> of the \<open>k\<close>-th
  query ends the run there; and on a page whose path does not start with two slashes the
  fragment is cleared, after ten queries that found nothing or after the query that found
  the element.
\<close>

lemma scroll_retry_bounded:
  assumes p: "take (length fragmentPrefix) (locationHash s) = fragmentPrefix"
    and sel: "selector = selectorFor (drop (length fragmentPrefix) (locationHash s))"
  shows "queries (finalState (scrollToHighlightFromHash q s)) \<le> queries s + 10
     \<and> ((\<forall>k. 1 \<le> k \<and> k \<le> 10 \<longrightarrow> q selector k = NotFound) \<and> take 2 (pathname s @ search s) \<noteq> ''//'' \<longrightarrow>
          scrollToHighlightFromHash q s
            = Inr (s\<lparr>locationHash := [], queries := queries s + 10, elapsed := elapsed s + 10 * 500\<rparr>))
     \<and> (\<forall>k. 1 \<le> k \<and> k \<le> 10 \<and> q selector k = Found \<and> (\<forall>j. 1 \<le> j \<and> j < k \<longrightarrow> q selector j = NotFound)
            \<and> take 2 (pathname s @ search s) \<noteq> ''//'' \<longrightarrow>
          scrollToHighlightFromHash q s
            = Inr (s\<lparr>locationHash := [],
                scrolledTo := scrolledTo s @ [drop (length fragmentPrefix) (locationHash s)],
                queries := queries s + k, elapsed := elapsed s + 500 * k + 1000\<rparr>))
     \<and> (\<forall>k. 1 \<le> k \<and> k \<le> 10 \<and> q selector k = SelectorError \<and> (\<forall>j. 1 \<le> j \<and> j < k \<longrightarrow> q selector j = NotFound) \<longrightarrow>
          scrollToHighlightFromHash q s
            = Inl (SyntaxError (s\<lparr>queries := queries s + k, elapsed := elapsed s + 500 * k\<rparr>)))"
proof -
  let ?hid = "drop (length fragmentPrefix) (locationHash s)"
  let ?s0 = "s\<lparr>elapsed := elapsed s + 500\<rparr>"
  have eq: "scrollToHighlightFromHash q s = tryScroll q ?hid 0 ?s0"
    using p by (simp add: scrollToHighlightFromHash_def)
  have b: "queries (finalState (scrollToHighlightFromHash q s)) \<le> queries s + 10"
    using tryScroll_queries [of q ?hid 0 ?s0] by (simp add: eq maxAttempts_def)
  have n: "scrollToHighlightFromHash q s
            = Inr (s\<lparr>locationHash := [], queries := queries s + 10, elapsed := elapsed s + 10 * 500\<rparr>)"
    if "(\<forall>k. 1 \<le> k \<and> k \<le> 10 \<longrightarrow> q selector k = NotFound) \<and> take 2 (pathname s @ search s) \<noteq> ''//''"
    using tryScroll_never_found [of 0 q ?hid ?s0] that eq sel
    by (cases s) (simp add: maxAttempts_def replaceState_allowed)
  have f: "scrollToHighlightFromHash q s
            = Inr (s\<lparr>locationHash := [], scrolledTo := scrolledTo s @ [?hid],
                queries := queries s + k, elapsed := elapsed s + 500 * k + 1000\<rparr>)"
    if "1 \<le> k \<and> k \<le> 10 \<and> q selector k = Found \<and> (\<forall>j. 1 \<le> j \<and> j < k \<longrightarrow> q selector j = NotFound)
            \<and> take 2 (pathname s @ search s) \<noteq> ''//''" for k
  proof -
    from that sel have fs: "0 < k" "k \<le> maxAttempts" "q (selectorFor ?hid) k = Found"
        "\<forall>j. 0 < j \<and> j < k \<longrightarrow> q (selectorFor ?hid) j = NotFound"
      by (auto simp: maxAttempts_def)
    have "500 + 500 * (k - 1) = 500 * k" using \<open>0 < k\<close> by arith
    then have "elapsed s + 500 + 500 * (k - 0 - 1) + 1000 = elapsed s + 500 * k + 1000" by simp
    with tryScroll_found [where a = 0 and k = k and q = q and hid = ?hid and s = ?s0] fs that eq
    show ?thesis
      by (cases s) (simp add: replaceState_allowed)
  qed
  have r: "scrollToHighlightFromHash q s
            = Inl (SyntaxError (s\<lparr>queries := queries s + k, elapsed := elapsed s + 500 * k\<rparr>))"
    if "1 \<le> k \<and> k \<le> 10 \<and> q selector k = SelectorError \<and> (\<forall>j. 1 \<le> j \<and> j < k \<longrightarrow> q selector j = NotFound)" for k
  proof -
    from that sel have fs: "0 < k" "k \<le> maxAttempts" "q (selectorFor ?hid) k = SelectorError"
        "\<forall>j. 0 < j \<and> j < k \<longrightarrow> q (selectorFor ?hid) j = NotFound"
      by (auto simp: maxAttempts_def)
    have "500 + 500 * (k - 1) = 500 * k" using \<open>0 < k\<close> by arith
    then have "elapsed s + 500 + 500 * (k - 0 - 1) = elapsed s + 500 * k" by simp
    with tryScroll_raises [where a = 0 and k = k and q = q and hid = ?hid and s = ?s0] fs that eq
    show ?thesis
      by (cases s) simp
  qed
  from b n f r show ?thesis by blast
qed

text \<open>
  Claim C9, scroll-retry termination and cleanup: the procedure started by a fragment
  \<^verbatim>\<open>#sensenote-<id>\<close> looks for the wrapper at most 10 times with a fixed delay, ends for
  every run, clears the fragment from the address when the element was never found and
  gives up without an exception, and on success scrolls and clears the fragment too.

  The code is a total function that makes at most 10 queries (\<open>scroll_retry_bounded\<close>),
  but it does not always clear the fragment and it does raise. On the page
  \<^verbatim>\<open>https://example.org//docs#sensenote-hl-1\<close> the address handed to
  \<^verbatim>\<open>history.replaceState\<close> is the path \<^verbatim>\<open>//docs\<close>, which is read as scheme-relative and
  names another host: the call raises \<^verbatim>\<open>SecurityError\<close>, nothing catches it, and the
  fragment stays, after ten attempts that found nothing as well as after a success.
  A \<^verbatim>\<open>SyntaxError\<close> of \<^verbatim>\<open>querySelector\<close> ends the run at the first attempt in the same
  way. On the page \<^verbatim>\<open>https://example.org/page?x=1#sensenote-hl-1\<close> the run does what the
  claim says.
\<close>

theorem scroll_fragment_left_on_error:
  "scrollToHighlightFromHash neverFound scrollSlashes
     = Inl (SecurityError
         \<lparr>host = ''example.org'', pathname = ''//docs'', search = [],
          locationHash = ''#sensenote-hl-1'', scrolledTo = [], queries = 10, elapsed = 5000\<rparr>)
   \<and> scrollToHighlightFromHash foundAtOnce scrollSlashes
     = Inl (SecurityError
         \<lparr>host = ''example.org'', pathname = ''//docs'', search = [],
          locationHash = ''#sensenote-hl-1'', scrolledTo = [''hl-1''], queries = 1, elapsed = 1500\<rparr>)
   \<and> scrollToHighlightFromHash selectorRejected scroll0
     = Inl (SyntaxError
         \<lparr>host = ''example.org'', pathname = ''/page'', search = ''?x=1'',
          locationHash = ''#sensenote-hl-1'', scrolledTo = [], queries = 1, elapsed = 500\<rparr>)
   \<and> scrollToHighlightFromHash neverFound scroll0
     = Inr \<lparr>host = ''example.org'', pathname = ''/page'', search = ''?x=1'',
          locationHash = [], scrolledTo = [], queries = 10, elapsed = 5000\<rparr>
   \<and> scrollToHighlightFromHash foundAtThird scroll0
     = Inr \<lparr>host = ''example.org'', pathname = ''/page'', search = ''?x=1'',
          locationHash = [], scrolledTo = [''hl-1''], queries = 3, elapsed = 2500\<rparr>"
  by code_simp

section \<open>The text content under the range operations\<close>

lemma textContent_children: "\<not> isText n \<Longrightarrow> textContent n = concat (map textContent (children n))"
  by (cases n) auto

lemma concat_map_nth_split:
  "i < length cs \<Longrightarrow> concat (map f cs)
     = concat (map f (take i cs)) @ f (cs ! i) @ concat (map f (drop (Suc i) cs))"
proof -
  assume "i < length cs"
  then have "cs = take i cs @ cs ! i # drop (Suc i) cs" by (rule id_take_nth_drop)
  then have "concat (map f cs) = concat (map f (take i cs @ cs ! i # drop (Suc i) cs))" by simp
  then show ?thesis by simp
qed

lemma concat_map_update:
  "i < length cs \<Longrightarrow> concat (map f (cs[i := c]))
     = concat (map f (take i cs)) @ f c @ concat (map f (drop (Suc i) cs))"
  by (simp add: upd_conv_take_nth_drop)

lemma concat_map_take_drop:
  "concat (map f cs) = concat (map f (take k cs)) @ concat (map f (drop k cs))"
proof -
  have "concat (map f cs) = concat (map f (take k cs @ drop k cs))" by simp
  then show ?thesis by (simp del: append_take_drop_id)
qed

lemma normalize_textContent:
  "textContent (normalize n) = textContent n"
  "concat (map textContent (normalizeList cs)) = concat (map textContent cs)"
proof (induction n and cs rule: normalize_normalizeList.induct)
  case (1 s)
  show ?case by simp
next
  case (2 t cl at cs)
  then show ?case by simp
next
  case 3
  show ?case by simp
next
  case (4 c cs)
  show ?case
  proof (cases c)
    case (Text s)
    with "4.IH"(1) show ?thesis
      by (cases "normalizeList cs") (auto split: node.splits)
  next
    case (Element t cl at ds)
    with "4.IH"(2,3) show ?thesis by simp
  qed
qed

lemma normalizeAt_textContent: "textContent (normalizeAt n p) = textContent n"
proof (induction n p rule: normalizeAt.induct)
  case (1 n)
  show ?case by (simp add: normalize_textContent)
next
  case (2 s i p)
  show ?case by simp
next
  case (3 t cl at cs i p)
  show ?case
  proof (cases "i < length cs")
    case True
    have "textContent (Element t cl at cs)
      = concat (map textContent (take i cs)) @ textContent (cs ! i)
        @ concat (map textContent (drop (Suc i) cs))"
      using concat_map_nth_split [OF True, of textContent] by simp
    moreover have "textContent (normalizeAt (Element t cl at cs) (i # p))
      = concat (map textContent (take i cs)) @ textContent (normalizeAt (cs ! i) p)
        @ concat (map textContent (drop (Suc i) cs))"
      using concat_map_update [OF True, of textContent "normalizeAt (cs ! i) p"] True by simp
    ultimately show ?thesis using "3.IH" [OF True] by simp
  next
    case False
    then show ?thesis by simp
  qed
qed

lemma normalize_isText: "isText (normalize n) = isText n"
  by (cases n) auto

lemma normalizeAt_isText: "isText (normalizeAt n p) = isText n"
  by (induction n p rule: normalizeAt.induct) (auto simp: normalize_isText)

lemma unwrapElement_textContent:
  "unwrapElement n p = Some n' \<Longrightarrow> textContent n' = textContent n \<and> \<not> isText n'"
proof (induction n p arbitrary: n' rule: unwrapElement.induct)
  case (1 n)
  then show ?case by simp
next
  case (2 s i p)
  then show ?case by simp
next
  case (3 t cl at cs i)
  from "3.prems" obtain t' cl' at' ds where c: "i < length cs" "cs ! i = Element t' cl' at' ds"
      "n' = Element t cl at (take i cs @ ds @ drop (Suc i) cs)"
    by (auto split: if_splits node.splits)
  have "textContent (Element t cl at cs)
      = concat (map textContent (take i cs)) @ textContent (cs ! i)
        @ concat (map textContent (drop (Suc i) cs))"
    using concat_map_nth_split [OF c(1), of textContent] by simp
  with c(2,3) show ?case by simp
next
  case (4 t cl at cs i j p)
  from "4.prems" obtain c where c: "i < length cs" "unwrapElement (cs ! i) (j # p) = Some c"
      "n' = Element t cl at (cs[i := c])"
    by (auto split: if_splits option.splits)
  from "4.IH" [OF c(1,2)] have e: "textContent c = textContent (cs ! i)" by simp
  have "textContent (Element t cl at cs)
      = concat (map textContent (take i cs)) @ textContent (cs ! i)
        @ concat (map textContent (drop (Suc i) cs))"
    using concat_map_nth_split [OF c(1), of textContent] by simp
  moreover have "textContent n'
      = concat (map textContent (take i cs)) @ textContent c
        @ concat (map textContent (drop (Suc i) cs))"
    using concat_map_update [OF c(1), of textContent c] c(3) by simp
  ultimately show ?case using e c(3) by simp
qed

lemma removeWrapper_textContent:
  "textContent (removeWrapper b hid) = textContent b"
  by (auto simp: removeWrapper_def normalizeAt_textContent
      split: option.splits dest: unwrapElement_textContent)

lemma removeWrapper_isText: "\<not> isText b \<Longrightarrow> \<not> isText (removeWrapper b hid)"
  by (auto simp: removeWrapper_def normalizeAt_isText
      split: option.splits dest: unwrapElement_textContent)

lemma extractFrom_textContent:
  "extractFrom n p off = Some (rest, clone)
     \<Longrightarrow> textContent n = textContent rest @ textContent clone"
proof (induction n p off arbitrary: rest clone rule: extractFrom.induct)
  case (1 s off)
  then show ?case by (auto split: if_splits)
next
  case (2 s i p off)
  then show ?case by simp
next
  case (3 t cl at cs off)
  from "3.prems" have "textContent (Element t cl at cs)
      = concat (map textContent (take off cs)) @ concat (map textContent (drop off cs))"
    using concat_map_take_drop [of textContent cs off] by simp
  with "3.prems" show ?case by (auto split: if_splits)
next
  case (4 t cl at cs i p off)
  from "4.prems" obtain r c where rc: "i < length cs" "extractFrom (cs ! i) p off = Some (r, c)"
      "rest = Element t cl at (take i cs @ [r])" "clone = Element t cl at (c # drop (Suc i) cs)"
    by (auto split: if_splits option.splits)
  from "4.IH" [OF rc(1,2)] have e: "textContent (cs ! i) = textContent r @ textContent c" .
  have "textContent (Element t cl at cs)
      = concat (map textContent (take i cs)) @ textContent (cs ! i)
        @ concat (map textContent (drop (Suc i) cs))"
    using concat_map_nth_split [OF rc(1), of textContent] by simp
  with rc(3,4) e show ?case by simp
qed

lemma extractUpto_textContent:
  "extractUpto n p off = Some (clone, rest)
     \<Longrightarrow> textContent n = textContent clone @ textContent rest"
proof (induction n p off arbitrary: rest clone rule: extractUpto.induct)
  case (1 s off)
  then show ?case by (auto split: if_splits)
next
  case (2 s i p off)
  then show ?case by simp
next
  case (3 t cl at cs off)
  from "3.prems" have "textContent (Element t cl at cs)
      = concat (map textContent (take off cs)) @ concat (map textContent (drop off cs))"
    using concat_map_take_drop [of textContent cs off] by simp
  with "3.prems" show ?case by (auto split: if_splits)
next
  case (4 t cl at cs i p off)
  from "4.prems" obtain c r where rc: "i < length cs" "extractUpto (cs ! i) p off = Some (c, r)"
      "clone = Element t cl at (take i cs @ [c])" "rest = Element t cl at (r # drop (Suc i) cs)"
    by (auto split: if_splits option.splits)
  from "4.IH" [OF rc(1,2)] have e: "textContent (cs ! i) = textContent c @ textContent r" .
  have "textContent (Element t cl at cs)
      = concat (map textContent (take i cs)) @ textContent (cs ! i)
        @ concat (map textContent (drop (Suc i) cs))"
    using concat_map_nth_split [OF rc(1), of textContent] by simp
  with rc(3,4) e show ?case by simp
qed


lemma concat_map_three:
  assumes "a \<le> b"
  shows "concat (map f cs) = concat (map f (take a cs))
           @ concat (map f (take (b - a) (drop a cs))) @ concat (map f (drop b cs))"
proof -
  have "take (b - a) (drop a cs) @ drop (b - a) (drop a cs) = drop a cs"
    by (rule append_take_drop_id)
  moreover have "drop (b - a) (drop a cs) = drop b cs" using assms by simp
  ultimately have "drop a cs = take (b - a) (drop a cs) @ drop b cs" by simp
  then have "concat (map f (drop a cs))
      = concat (map f (take (b - a) (drop a cs))) @ concat (map f (drop b cs))"
    by (metis concat_append map_append)
  then show ?thesis using concat_map_take_drop [of f cs a] by simp
qed

lemma concat_map_three_nth:
  assumes "a \<le> j" and "j < length cs"
  shows "concat (map f cs) = concat (map f (take a cs))
           @ concat (map f (take (j - a) (drop a cs))) @ f (cs ! j) @ concat (map f (drop (Suc j) cs))"
proof -
  have "drop j cs = cs ! j # drop (Suc j) cs" using assms(2) by (simp add: Cons_nth_drop_Suc)
  then have "concat (map f (drop j cs)) = f (cs ! j) @ concat (map f (drop (Suc j) cs))" by simp
  then show ?thesis using concat_map_three [OF assms(1), of f cs] by simp
qed

lemma extractRec_isText:
  "extractRec n sp so ep eo = Some (n', frag, np, noff) \<Longrightarrow> isText n' = isText n"
  by (cases "(n, sp, so, ep, eo)" rule: extractRec.cases)
     (auto split: if_splits option.splits prod.splits)

lemma extractRec_Text:
  "extractRec (Text s) sp so ep eo = Some (n', frag, np, noff)
     \<Longrightarrow> sp = [] \<and> ep = [] \<and> so \<le> eo \<and> eo \<le> length s
         \<and> n' = Text (take so s @ drop eo s) \<and> frag = [Text (take (eo - so) (drop so s))]
         \<and> np = [] \<and> noff = so"
  by (cases "(Text s, sp, so, ep, eo)" rule: extractRec.cases) (auto split: if_splits)

lemma extractRec_diverge:
  assumes "i \<noteq> j"
    and "extractRec (Element t cl at cs) (i # sp) so (j # ep) eo = Some (n', frag, np, noff)"
  shows "\<exists>rest1 clone1 clone2 rest2. i < j \<and> j < length cs
     \<and> extractFrom (cs ! i) sp so = Some (rest1, clone1)
     \<and> extractUpto (cs ! j) ep eo = Some (clone2, rest2)
     \<and> n' = Element t cl at (take i cs @ rest1 # rest2 # drop (Suc j) cs)
     \<and> frag = clone1 # take (j - Suc i) (drop (Suc i) cs) @ [clone2]
     \<and> np = [] \<and> noff = Suc i"
proof -
  from assms have b: "i < j" "j < length cs" by (auto split: if_splits)
  show ?thesis
  proof (cases "extractFrom (cs ! i) sp so")
    case None
    with assms b show ?thesis by simp
  next
    case (Some a)
    note sa = this
    show ?thesis
    proof (cases "extractUpto (cs ! j) ep eo")
      case None
      with assms b sa show ?thesis by (cases a) simp
    next
      case (Some c)
      with assms b sa show ?thesis by (cases a; cases c) auto
    qed
  qed
qed

lemma extract_insert:
  "extractRec n sp so ep eo = Some (n', frag, np, noff) \<Longrightarrow> \<not> isText n \<Longrightarrow>
     \<exists>pre post. textContent n = pre @ concat (map textContent frag) @ post
       \<and> (\<forall>w. \<exists>n''. insertNode n' np noff w = Some n'' \<and> \<not> isText n''
              \<and> textContent n'' = pre @ textContent w @ post)"
proof (induction n sp so ep eo arbitrary: n' frag np noff rule: extractRec.induct)
  case (1 s so eo)
  then show ?case by simp
next
  case (2 t cl at cs so eo)
  from "2.prems" have b: "so \<le> eo" "eo \<le> length cs"
    and n': "n' = Element t cl at (take so cs @ drop eo cs)"
    and f: "frag = take (eo - so) (drop so cs)" and p: "np = []" "noff = so"
    by (auto split: if_splits)
  let ?pre = "concat (map textContent (take so cs))"
  let ?post = "concat (map textContent (drop eo cs))"
  have "textContent (Element t cl at cs) = ?pre @ concat (map textContent frag) @ ?post"
    using concat_map_three [OF b(1), of textContent cs] f by simp
  moreover have "insertNode n' np noff w = Some (Element t cl at (take so cs @ w # drop eo cs))" for w
    using b n' p by simp
  ultimately show ?case by fastforce
next
  case (3 t cl at cs so j ep eo)
  from "3.prems" obtain clone rest where b: "so \<le> j" "j < length cs"
    and u: "extractUpto (cs ! j) ep eo = Some (clone, rest)"
    and n': "n' = Element t cl at (take so cs @ rest # drop (Suc j) cs)"
    and f: "frag = take (j - so) (drop so cs) @ [clone]" and p: "np = []" "noff = so"
    by (auto split: if_splits option.splits)
  let ?pre = "concat (map textContent (take so cs))"
  let ?post = "textContent rest @ concat (map textContent (drop (Suc j) cs))"
  have "textContent (Element t cl at cs) = ?pre @ concat (map textContent frag) @ ?post"
    using concat_map_three_nth [OF b, of textContent] f extractUpto_textContent [OF u] by simp
  moreover have "insertNode n' np noff w
      = Some (Element t cl at (take so cs @ w # rest # drop (Suc j) cs))" for w
    using b n' p by simp
  ultimately show ?case by fastforce
next
  case (4 t cl at cs i sp so eo)
  from "4.prems" obtain rest clone where b: "i < eo" "eo \<le> length cs"
    and u: "extractFrom (cs ! i) sp so = Some (rest, clone)"
    and n': "n' = Element t cl at (take i cs @ rest # drop eo cs)"
    and f: "frag = clone # take (eo - Suc i) (drop (Suc i) cs)" and p: "np = []" "noff = Suc i"
    by (auto split: if_splits option.splits)
  let ?pre = "concat (map textContent (take i cs)) @ textContent rest"
  let ?post = "concat (map textContent (drop eo cs))"
  from b have il: "i < length cs" and se: "Suc i \<le> eo" by auto
  have "concat (map textContent (drop (Suc i) cs))
      = concat (map textContent (take (eo - Suc i) (drop (Suc i) cs))) @ ?post"
    using concat_map_three [OF se, of textContent cs] concat_map_take_drop [of textContent cs "Suc i"]
    by simp
  then have "textContent (Element t cl at cs) = ?pre @ concat (map textContent frag) @ ?post"
    using concat_map_nth_split [OF il, of textContent] f extractFrom_textContent [OF u] by simp
  moreover have "insertNode n' np noff w
      = Some (Element t cl at (take i cs @ rest # w # drop eo cs))" for w
    using il n' p by (simp add: min_absorb2)
  ultimately show ?case by fastforce
next
  case (5 t cl at cs i sp so j ep eo)
  show ?case
  proof (cases "i = j")
    case True
    from "5.prems" True obtain c np' where il: "i < length cs"
      and r: "extractRec (cs ! i) sp so ep eo = Some (c, frag, np', noff)"
      and n': "n' = Element t cl at (cs[i := c])" and p: "np = i # np'"
      by (auto split: if_splits option.splits)
    let ?a = "concat (map textContent (take i cs))"
    let ?z = "concat (map textContent (drop (Suc i) cs))"
    have tc: "textContent (Element t cl at cs) = ?a @ textContent (cs ! i) @ ?z"
      using concat_map_nth_split [OF il, of textContent] by simp
    show ?thesis
    proof (cases "cs ! i")
      case (Text s)
      from extractRec_Text [OF r [unfolded Text]]
      have e: "sp = []" "ep = []" "so \<le> eo" "eo \<le> length s" "c = Text (take so s @ drop eo s)"
        "frag = [Text (take (eo - so) (drop so s))]" "np' = []" "noff = so"
        by auto
      let ?pre = "?a @ take so s"
      let ?post = "drop eo s @ ?z"
      have "s = take so s @ take (eo - so) (drop so s) @ drop eo s"
        using e(3) by (metis append_take_drop_id drop_drop le_add_diff_inverse2)
      then have "textContent (cs ! i) = take so s @ concat (map textContent frag) @ drop eo s"
        using Text e(6) by simp
      with tc have 1: "textContent (Element t cl at cs) = ?pre @ concat (map textContent frag) @ ?post"
        by simp
      have 2: "insertNode n' np noff w
          = Some (Element t cl at (take i cs @ Text (take so s) # w # Text (drop eo s) # drop (Suc i) cs))" for w
        using il n' p e by (simp add: min_absorb2)
      from 1 2 show ?thesis by fastforce
    next
      case (Element t' cl' at' ds)
      then have ne: "\<not> isText (cs ! i)" by simp
      from "5.IH"(1) [OF True il r ne] obtain pre post where
        pp: "textContent (cs ! i) = pre @ concat (map textContent frag) @ post"
        and ins: "\<And>w. \<exists>c''. insertNode c np' noff w = Some c'' \<and> \<not> isText c''
              \<and> textContent c'' = pre @ textContent w @ post"
        by blast
      from extractRec_isText [OF r] ne have nc: "\<not> isText c" by simp
      have "\<exists>n''. insertNode n' np noff w = Some n'' \<and> \<not> isText n''
              \<and> textContent n'' = (?a @ pre) @ textContent w @ (post @ ?z)" for w
      proof -
        from ins [of w] obtain c'' where c'': "insertNode c np' noff w = Some c''"
          "textContent c'' = pre @ textContent w @ post" by blast
        have "insertNode n' np noff w = Some (Element t cl at (cs[i := c'']))"
          using il n' p c''(1) nc by (cases c) (auto split: list.splits)
        moreover have "textContent (Element t cl at (cs[i := c'']))
            = ?a @ textContent c'' @ ?z"
          using concat_map_update [OF il, of textContent c''] by simp
        ultimately show ?thesis using c''(2) by simp
      qed
      moreover have "textContent (Element t cl at cs)
          = (?a @ pre) @ concat (map textContent frag) @ (post @ ?z)"
        using tc pp by simp
      ultimately show ?thesis by blast
    qed
  next
    case False
    from extractRec_diverge [OF False "5.prems"(1)]
    obtain rest1 clone1 clone2 rest2 where b: "i < j" "j < length cs"
      and u1: "extractFrom (cs ! i) sp so = Some (rest1, clone1)"
      and u2: "extractUpto (cs ! j) ep eo = Some (clone2, rest2)"
      and n': "n' = Element t cl at (take i cs @ rest1 # rest2 # drop (Suc j) cs)"
      and f: "frag = clone1 # take (j - Suc i) (drop (Suc i) cs) @ [clone2]"
      and p: "np = []" "noff = Suc i"
      by blast
    from b have il: "i < length cs" and sj: "Suc i \<le> j" by auto
    let ?pre = "concat (map textContent (take i cs)) @ textContent rest1"
    let ?post = "textContent rest2 @ concat (map textContent (drop (Suc j) cs))"
    have "concat (map textContent (drop (Suc i) cs))
        = concat (map textContent (take (j - Suc i) (drop (Suc i) cs)))
          @ textContent (cs ! j) @ concat (map textContent (drop (Suc j) cs))"
      using concat_map_three_nth [OF sj b(2), of textContent]
        concat_map_take_drop [of textContent cs "Suc i"] by simp
    then have "textContent (Element t cl at cs) = ?pre @ concat (map textContent frag) @ ?post"
      using concat_map_nth_split [OF il, of textContent] f
        extractFrom_textContent [OF u1] extractUpto_textContent [OF u2] by simp
    moreover have "insertNode n' np noff w
        = Some (Element t cl at (take i cs @ rest1 # w # rest2 # drop (Suc j) cs))" for w
      using il n' p by (simp add: min_absorb2)
    ultimately show ?thesis by fastforce
  qed
qed simp_all

section \<open>Resolved ranges are wrapped\<close>

lemma comparePoints_swap:
  "comparePoints pa oa pb ob = After \<longleftrightarrow> comparePoints pb ob pa oa = Before"
  by (induction pa oa pb ob rule: comparePoints.induct) auto

lemma comparePoints_refl: "comparePoints p off p off = Equal"
  by (induction p) auto

lemma comparePoints_Equal:
  "comparePoints pa oa pb ob = Equal \<Longrightarrow> pa = pb \<and> oa = ob"
  by (induction pa oa pb ob rule: comparePoints.induct) (auto split: if_splits)

lemma comparePoints_not_inside:
  "\<not> (comparePoints pa 0 pb ob = After \<and> comparePoints pa oa' pb ob = Before)"
  by (induction pa oa' pb ob rule: comparePoints.induct) auto

lemma rangeToString_collapsed:
  assumes "collapsed r"
  shows "rangeToString b r = []"
proof -
  have "\<not> containedText r tn" for tn
    using assms comparePoints_not_inside [of "tnPath tn" "endContainer r" "endOff r" "length (tnData tn)"]
    by (simp add: containedText_def collapsed_def)
  then have "filter (containedText r) (allTextNodes b) = []" by simp
  with assms show ?thesis
    by (auto simp: rangeToString_def collapsed_def split: option.splits)
qed

lemma setStart_createRange:
  "setStart b createRange sn so = Some r1
     \<Longrightarrow> r1 = \<lparr>startContainer = sn, startOff = so, endContainer = sn, endOff = so\<rparr>
         \<and> (\<exists>a. nodeAt b sn = Some a \<and> so \<le> nodeLength a)"
  by (cases sn) (auto simp: setStart_def createRange_def split: option.splits if_splits)

lemma setEnd_valid:
  assumes "setEnd b \<lparr>startContainer = sn, startOff = so, endContainer = sn, endOff = so\<rparr> en eo = Some r"
    and "nodeAt b sn = Some a" and "so \<le> nodeLength a"
  shows "(\<exists>a. nodeAt b (startContainer r) = Some a \<and> startOff r \<le> nodeLength a)
     \<and> (\<exists>z. nodeAt b (endContainer r) = Some z \<and> endOff r \<le> nodeLength z)
     \<and> comparePoints (startContainer r) (startOff r) (endContainer r) (endOff r) \<noteq> After"
  using assms
  by (auto simp: setEnd_def comparePoints_refl comparePoints_swap split: option.splits if_splits)

lemma materialize_valid:
  assumes "materialize b tns st idx = Some r" and "st \<noteq> []"
  shows "validRange b r"
proof -
  from assms(1) obtain sn so en eo r1 where
    s: "setStart b createRange sn so = Some r1" and e: "setEnd b r1 en eo = Some r"
    and t: "rangeToString b r = st"
    by (auto simp: materialize_def split: prod.splits option.splits if_splits)
  from setStart_createRange [OF s] obtain a where
    r1: "r1 = \<lparr>startContainer = sn, startOff = so, endContainer = sn, endOff = so\<rparr>"
    and a: "nodeAt b sn = Some a" "so \<le> nodeLength a"
    by blast
  from setEnd_valid [OF e [unfolded r1] a] have v:
    "\<exists>a. nodeAt b (startContainer r) = Some a \<and> startOff r \<le> nodeLength a"
    "\<exists>z. nodeAt b (endContainer r) = Some z \<and> endOff r \<le> nodeLength z"
    "comparePoints (startContainer r) (startOff r) (endContainer r) (endOff r) \<noteq> After"
    by auto
  have "\<not> collapsed r" using rangeToString_collapsed [of r b] t assms(2) by auto
  then have "comparePoints (startContainer r) (startOff r) (endContainer r) (endOff r) \<noteq> Equal"
    using comparePoints_Equal by (auto simp: collapsed_def)
  with v(3) have "comparePoints (startContainer r) (startOff r) (endContainer r) (endOff r) = Before"
    by (cases "comparePoints (startContainer r) (startOff r) (endContainer r) (endOff r)") auto
  with v(1,2) show ?thesis by (auto simp: validRange_def)
qed

lemma findTextWithContext_valid:
  "findTextWithContext b st tb ta = Some r \<Longrightarrow> validRange b r"
  by (auto simp: findTextWithContext_def split: option.splits if_splits prod.splits
      dest: materialize_valid)

lemma validRange_not_collapsed: "validRange b r \<Longrightarrow> \<not> collapsed r"
  by (auto simp: validRange_def collapsed_def comparePoints_refl)

lemma extractFrom_succeeds:
  "nodeAt n p = Some a \<Longrightarrow> off \<le> nodeLength a \<Longrightarrow> \<exists>res. extractFrom n p off = Some res"
  by (induction n p off rule: extractFrom.induct) (auto split: if_splits)

lemma extractUpto_succeeds:
  "nodeAt n p = Some a \<Longrightarrow> off \<le> nodeLength a \<Longrightarrow> \<exists>res. extractUpto n p off = Some res"
  by (induction n p off rule: extractUpto.induct) (auto split: if_splits)

lemma extractRec_succeeds:
  "nodeAt n sp = Some a \<Longrightarrow> so \<le> nodeLength a \<Longrightarrow> nodeAt n ep = Some z \<Longrightarrow> eo \<le> nodeLength z
     \<Longrightarrow> comparePoints sp so ep eo = Before \<Longrightarrow> \<exists>res. extractRec n sp so ep eo = Some res"
proof (induction n sp so ep eo rule: extractRec.induct)
  case (1 s so eo)
  then show ?case by (auto split: if_splits)
next
  case (2 t cl at cs so eo)
  then show ?case by (auto split: if_splits)
next
  case (3 t cl at cs so j ep eo)
  from "3.prems" have b: "so \<le> j" "j < length cs" and n: "nodeAt (cs ! j) ep = Some z"
    by (auto split: if_splits)
  from extractUpto_succeeds [OF n "3.prems"(4)] b show ?case by auto
next
  case (4 t cl at cs i sp so eo)
  from "4.prems" have b: "i < eo" "eo \<le> length cs" "i < length cs"
    and n: "nodeAt (cs ! i) sp = Some a"
    by (auto split: if_splits)
  from extractFrom_succeeds [OF n "4.prems"(2)] b show ?case by auto
next
  case (5 t cl at cs i sp so j ep eo)
  from "5.prems" have il: "i < length cs" and jl: "j < length cs"
    and na: "nodeAt (cs ! i) sp = Some a" and nz: "nodeAt (cs ! j) ep = Some z"
    by (auto split: if_splits)
  show ?case
  proof (cases "i = j")
    case True
    with "5.prems" have "comparePoints sp so ep eo = Before" by simp
    from "5.IH" [OF True il na "5.prems"(2) nz [folded True] "5.prems"(4) this]
    obtain res where "extractRec (cs ! i) sp so ep eo = Some res" by blast
    with True il show ?thesis by (cases res) auto
  next
    case False
    with "5.prems" have lt: "i < j" by (auto split: if_splits)
    from extractFrom_succeeds [OF na "5.prems"(2)] obtain r1 where
      r1: "extractFrom (cs ! i) sp so = Some r1" by blast
    from extractUpto_succeeds [OF nz "5.prems"(4)] obtain r2 where
      r2: "extractUpto (cs ! j) ep eo = Some r2" by blast
    from False lt jl r1 r2 show ?thesis by (cases r1; cases r2) auto
  qed
qed simp_all

lemma sum_list_nth_split:
  fixes f :: "'a \<Rightarrow> nat"
  shows "i < length cs \<Longrightarrow> sum_list (map f cs)
     = sum_list (map f (take i cs)) + f (cs ! i) + sum_list (map f (drop (Suc i) cs))"
proof -
  assume "i < length cs"
  then have "cs = take i cs @ cs ! i # drop (Suc i) cs" by (rule id_take_nth_drop)
  then have "sum_list (map f cs) = sum_list (map f (take i cs @ cs ! i # drop (Suc i) cs))" by simp
  then show ?thesis by simp
qed

lemma sum_list_update:
  fixes f :: "'a \<Rightarrow> nat"
  shows "i < length cs \<Longrightarrow> sum_list (map f (cs[i := c]))
     = sum_list (map f (take i cs)) + f c + sum_list (map f (drop (Suc i) cs))"
  by (simp add: upd_conv_take_nth_drop)

lemma sum_list_take_drop:
  fixes f :: "'a \<Rightarrow> nat"
  shows "sum_list (map f cs) = sum_list (map f (take k cs)) + sum_list (map f (drop k cs))"
proof -
  have "sum_list (map f cs) = sum_list (map f (take k cs @ drop k cs))" by simp
  then show ?thesis by (simp del: append_take_drop_id)
qed

lemma insertNode_count:
  "insertNode n p off w = Some n' \<Longrightarrow>
     countNode hid n' = countNode hid n + countNode hid w
     \<and> countWrappers n' hid = countWrappers n hid + countNode hid w"
proof (induction n p off w arbitrary: n' rule: insertNode.induct)
  case (1 s p off w)
  then show ?case by simp
next
  case (2 t cl at cs off w)
  from "2.prems" have n': "n' = Element t cl at (take off cs @ w # drop off cs)"
    by (auto split: if_splits)
  have "sum_list (map (countNode hid) cs)
      = sum_list (map (countNode hid) (take off cs)) + sum_list (map (countNode hid) (drop off cs))"
    by (rule sum_list_take_drop)
  with n' show ?case by (simp add: countWrappers_def)
next
  case (3 t cl at cs i p off w)
  from "3.prems" have il: "i < length cs" by (auto split: if_splits)
  have sp: "sum_list (map (countNode hid) cs)
      = sum_list (map (countNode hid) (take i cs)) + countNode hid (cs ! i)
        + sum_list (map (countNode hid) (drop (Suc i) cs))"
    using il by (rule sum_list_nth_split)
  show ?case
  proof (cases "\<exists>s. cs ! i = Text s \<and> p = []")
    case True
    then obtain s where s: "cs ! i = Text s" "p = []" by blast
    with "3.prems" il have
      "n' = Element t cl at (take i cs @ Text (take off s) # w # Text (drop off s) # drop (Suc i) cs)"
      by (auto split: if_splits)
    with sp s show ?thesis by (simp add: countWrappers_def)
  next
    case False
    then have ins: "insertNode (Element t cl at cs) (i # p) off w
        = (case insertNode (cs ! i) p off w of None \<Rightarrow> None
           | Some c \<Rightarrow> Some (Element t cl at (cs[i := c])))"
      using il by (cases "cs ! i"; cases p) auto
    with "3.prems" obtain c where c: "insertNode (cs ! i) p off w = Some c"
      "n' = Element t cl at (cs[i := c])"
      by (auto split: option.splits)
    have "countNode hid c = countNode hid (cs ! i) + countNode hid w"
    proof (cases "cs ! i")
      case (Text s)
      with c(1) show ?thesis by simp
    next
      case (Element t' cl' at' ds)
      with False il c(1) "3.IH"(2) [of "cs ! i" p _ _ _ _ c] show ?thesis
        by (cases p) auto
    qed
    with sp c(2) sum_list_update [OF il, of "countNode hid" c] show ?thesis
      by (simp add: countWrappers_def)
  qed
qed


lemma normalize_count:
  "countNode hid (normalize n) = countNode hid n"
  "sum_list (map (countNode hid) (normalizeList cs)) = sum_list (map (countNode hid) cs)"
proof (induction n and cs rule: normalize_normalizeList.induct)
  case (1 s)
  show ?case by simp
next
  case (2 t cl at cs)
  then show ?case by simp
next
  case 3
  show ?case by simp
next
  case (4 c cs)
  show ?case
  proof (cases c)
    case (Text s)
    with "4.IH"(1) show ?thesis
      by (cases "normalizeList cs") (auto split: node.splits)
  next
    case (Element t cl at ds)
    with "4.IH"(2,3) show ?thesis by simp
  qed
qed

lemma normalizeAt_count:
  "countNode hid (normalizeAt n p) = countNode hid n
   \<and> countWrappers (normalizeAt n p) hid = countWrappers n hid"
proof (induction n p rule: normalizeAt.induct)
  case (1 n)
  show ?case by (cases n) (simp_all add: normalize_count countWrappers_def)
next
  case (2 s i p)
  show ?case by simp
next
  case (3 t cl at cs i p)
  show ?case
  proof (cases "i < length cs")
    case True
    have "sum_list (map (countNode hid) cs)
      = sum_list (map (countNode hid) (take i cs)) + countNode hid (cs ! i)
        + sum_list (map (countNode hid) (drop (Suc i) cs))"
      using True by (rule sum_list_nth_split)
    moreover have "sum_list (map (countNode hid) (cs[i := normalizeAt (cs ! i) p]))
      = sum_list (map (countNode hid) (take i cs)) + countNode hid (normalizeAt (cs ! i) p)
        + sum_list (map (countNode hid) (drop (Suc i) cs))"
      using True by (rule sum_list_update)
    ultimately show ?thesis using "3.IH" [OF True] True by (simp add: countWrappers_def)
  next
    case False
    then show ?thesis by simp
  qed
qed

lemma find_count:
  "(findNode hid p n = None) = (countNode hid n = 0)"
  "(findList hid p i cs = None) = (sum_list (map (countNode hid) cs) = 0)"
  by (induction hid p n and hid p i cs rule: findNode_findList.induct)
     (auto split: option.splits)

lemma querySelector_count: "(querySelector b hid = None) = (countWrappers b hid = 0)"
  by (simp add: querySelector_def countWrappers_def find_count)

lemma wrapperElement_count: "countNode hid (wrapperElement hid c frag) > 0"
  by (simp add: wrapperElement_def)

lemma applyHighlight_wraps:
  assumes "validRange (body pg) r" and "\<not> isText (body pg)"
  shows "querySelector (body (applyHighlight pg r hid c)) hid \<noteq> None
     \<and> toasts (applyHighlight pg r hid c) = toasts pg"
proof -
  from assms(1) have nc: "\<not> collapsed r" by (rule validRange_not_collapsed)
  from assms(1) obtain a z where
    a: "nodeAt (body pg) (startContainer r) = Some a" "startOff r \<le> nodeLength a"
    and z: "nodeAt (body pg) (endContainer r) = Some z" "endOff r \<le> nodeLength z"
    and cp: "comparePoints (startContainer r) (startOff r) (endContainer r) (endOff r) = Before"
    by (auto simp: validRange_def split: option.splits)
  from extractRec_succeeds [OF a z cp] obtain b1 frag np noff where
    ex: "extractRec (body pg) (startContainer r) (startOff r) (endContainer r) (endOff r)
           = Some (b1, frag, np, noff)"
    by auto
  have ec: "extractContents (body pg) r = Some (b1, frag, np, noff)"
    using nc ex by (simp add: extractContents_def)
  from extract_insert [OF ex assms(2)] obtain b2 where
    b2: "insertNode b1 np noff (wrapperElement hid c frag) = Some b2"
    by blast
  from insertNode_count [OF b2, of hid] wrapperElement_count [of hid c frag]
  have cnt: "countWrappers b2 hid > 0" by simp
  show ?thesis
  proof (cases "partiallyContainsNonText (body pg) (startContainer r) (endContainer r)")
    case True
    then have "surroundContents (body pg) r (wrapperElement hid c) = None"
      by (simp add: surroundContents_def)
    with nc ec b2 cnt show ?thesis
      by (simp add: applyHighlight_def querySelector_count normalizeAt_count)
  next
    case False
    then have "surroundContents (body pg) r (wrapperElement hid c) = Some b2"
      using ec b2 by (simp add: surroundContents_def)
    with nc cnt show ?thesis by (simp add: applyHighlight_def querySelector_count)
  qed
qed

lemma restoreOne_wraps:
  assumes "createRangeFromHighlight (body pg) h = Some r" and "\<not> isText (body pg)"
  shows "restoreOne h (pg, sc, fc) = (applyHighlight pg r (hlId h) (color h), sc + 1, fc)
     \<and> querySelector (body (applyHighlight pg r (hlId h) (color h))) (hlId h) \<noteq> None"
proof -
  from assms(1) have "findTextWithContext (body pg) (Some (hlText h)) (textBefore h) (textAfter h) = Some r"
    by (auto simp: createRangeFromHighlight_def split: option.splits)
  then have "validRange (body pg) r" by (rule findTextWithContext_valid)
  from applyHighlight_wraps [OF this assms(2)] assms(1) show ?thesis
    by (simp add: restoreOne_def)
qed

section \<open>The round trip of a selection\<close>

text \<open>
  Claim C2, round-trip identity: for every document and every non-empty selected span,
  capture, immediate resolution, materialization and application of the wrapper, followed
  by the removal of the wrapper, leave the linear text of the document as it was before
  the capture, character for character.

  The code does so when \<^verbatim>\<open>surroundContents\<close> applies the wrapper: in \<open>docA\<close> the round trip
  of the selection of \<^verbatim>\<open>foo\<close> inside the bold text gives the document back as it was, once
  the toast of the deletion is gone (while it is shown, its message is text of the body).
  It does not when the selection crosses elements and the wrapper is applied by the second
  way of \<^verbatim>\<open>applyHighlight\<close>. In \<open>docA\<close> the selection of \<^verbatim>\<open>foobaz\<close> starts behind the
  leading space of the bold text and ends in the italic text; the record resolves to that
  very range; \<^verbatim>\<open>extractContents\<close> leaves the space alone in the bold element and an empty
  italic element behind, and moves a clone of each with the rest into the wrapper; the
  removal puts the clones beside what was left. The text content of the body is still
  \<^verbatim>\<open> foobaz\<close>, but the space is now a white-space run of its own, which the walk
  leaves out: the linear text was \<^verbatim>\<open> foobaz\<close> and is \<^verbatim>\<open>foobaz\<close>.
\<close>

theorem round_trip_fallback_loses_linear_text:
  "snd (linearizeRestore docA) = '' foobaz''
   \<and> rangeToString docA selA = ''foobaz''
   \<and> map_option (createRangeFromHighlight docA)
        (highlightData docA env0 selA (Some ''foobaz'') ''#ffeb3b'') = Some (Some selA)
   \<and> surroundContents docA selA (wrapperElement ''hl-1-a'' ''#ffeb3b'') = None
   \<and> roundTrip (emptyPage docA) env0 selA (Some ''foobaz'') ''#ffeb3b''
       = emptyPage (Element ''body'' [] []
           [Element ''p'' [] []
              [Element ''b'' [] [] [Text '' ''], Element ''b'' [] [] [Text ''foo''],
               Element ''i'' [] [] [Text ''baz''], Element ''i'' [] [] []]])
   \<and> textContent (body (roundTrip (emptyPage docA) env0 selA (Some ''foobaz'') ''#ffeb3b''))
       = '' foobaz''
   \<and> snd (linearizeRestore (body (roundTrip (emptyPage docA) env0 selA (Some ''foobaz'') ''#ffeb3b'')))
       = ''foobaz''
   \<and> snd (linearizeCapture (body (roundTrip (emptyPage docA) env0 selA (Some ''foobaz'') ''#ffeb3b'')))
       = ''foobaz''
   \<and> rangeToString docA selP = ''foo''
   \<and> map_option (createRangeFromHighlight docA)
        (highlightData docA env0 selP (Some ''foo'') ''#ffeb3b'') = Some (Some selP)
   \<and> surroundContents docA selP (wrapperElement ''hl-1-a'' ''#ffeb3b'')
       = Some (Element ''body'' [] []
           [Element ''p'' [] []
              [Element ''b'' [] []
                 [Text '' '', wrapperElement ''hl-1-a'' ''#ffeb3b'' [Text ''foo''], Text []],
               Element ''i'' [] [] [Text ''baz'']]])
   \<and> roundTrip (emptyPage docA) env0 selP (Some ''foo'') ''#ffeb3b'' = emptyPage docA"
  by code_simp

section \<open>Properties of restoration\<close>

lemma sum_list_three:
  fixes f :: "'a \<Rightarrow> nat"
  assumes "a \<le> b"
  shows "sum_list (map f cs) = sum_list (map f (take a cs))
           + sum_list (map f (take (b - a) (drop a cs))) + sum_list (map f (drop b cs))"
proof -
  have "drop (b - a) (drop a cs) = drop b cs" using assms by simp
  with sum_list_take_drop [of f "drop a cs" "b - a"]
  have "sum_list (map f (drop a cs))
      = sum_list (map f (take (b - a) (drop a cs))) + sum_list (map f (drop b cs))"
    by simp
  with sum_list_take_drop [of f cs a] show ?thesis by simp
qed

lemma sum_list_three_nth:
  fixes f :: "'a \<Rightarrow> nat"
  assumes "a \<le> j" and "j < length cs"
  shows "sum_list (map f cs) = sum_list (map f (take a cs))
           + sum_list (map f (take (j - a) (drop a cs))) + f (cs ! j) + sum_list (map f (drop (Suc j) cs))"
proof -
  have "drop j cs = cs ! j # drop (Suc j) cs" using assms(2) by (simp add: Cons_nth_drop_Suc)
  then have "sum_list (map f (drop j cs)) = f (cs ! j) + sum_list (map f (drop (Suc j) cs))" by simp
  with sum_list_three [OF assms(1), of f cs] show ?thesis by simp
qed

lemma extractFrom_count:
  "extractFrom n p off = Some (rest, clone)
     \<Longrightarrow> countNode hid n \<le> countNode hid rest + countNode hid clone"
proof (induction n p off arbitrary: rest clone rule: extractFrom.induct)
  case (1 s off)
  then show ?case by (auto split: if_splits)
next
  case (2 s i p off)
  then show ?case by simp
next
  case (3 t cl at cs off)
  with sum_list_take_drop [of "countNode hid" cs off] show ?case
    by (auto split: if_splits)
next
  case (4 t cl at cs i p off)
  from "4.prems" obtain r c where rc: "i < length cs" "extractFrom (cs ! i) p off = Some (r, c)"
      "rest = Element t cl at (take i cs @ [r])" "clone = Element t cl at (c # drop (Suc i) cs)"
    by (auto split: if_splits option.splits)
  from "4.IH" [OF rc(1,2)] have "countNode hid (cs ! i) \<le> countNode hid r + countNode hid c" .
  with sum_list_nth_split [OF rc(1), of "countNode hid"] rc(3,4) show ?case by simp
qed

lemma extractUpto_count:
  "extractUpto n p off = Some (clone, rest)
     \<Longrightarrow> countNode hid n \<le> countNode hid clone + countNode hid rest"
proof (induction n p off arbitrary: rest clone rule: extractUpto.induct)
  case (1 s off)
  then show ?case by (auto split: if_splits)
next
  case (2 s i p off)
  then show ?case by simp
next
  case (3 t cl at cs off)
  with sum_list_take_drop [of "countNode hid" cs off] show ?case
    by (auto split: if_splits)
next
  case (4 t cl at cs i p off)
  from "4.prems" obtain c r where rc: "i < length cs" "extractUpto (cs ! i) p off = Some (c, r)"
      "clone = Element t cl at (take i cs @ [c])" "rest = Element t cl at (r # drop (Suc i) cs)"
    by (auto split: if_splits option.splits)
  from "4.IH" [OF rc(1,2)] have "countNode hid (cs ! i) \<le> countNode hid c + countNode hid r" .
  with sum_list_nth_split [OF rc(1), of "countNode hid"] rc(3,4) show ?case by simp
qed

lemma extractRec_count:
  "extractRec n sp so ep eo = Some (n', frag, np, noff)
     \<Longrightarrow> countNode hid n \<le> countNode hid n' + sum_list (map (countNode hid) frag)
       \<and> countWrappers n hid \<le> countWrappers n' hid + sum_list (map (countNode hid) frag)"
proof (induction n sp so ep eo arbitrary: n' frag np noff rule: extractRec.induct)
  case (1 s so eo)
  then show ?case by (auto simp: countWrappers_def split: if_splits)
next
  case (2 t cl at cs so eo)
  from "2.prems" have b: "so \<le> eo" "eo \<le> length cs"
    and r: "n' = Element t cl at (take so cs @ drop eo cs)" "frag = take (eo - so) (drop so cs)"
    by (auto split: if_splits)
  from sum_list_three [OF b(1), of "countNode hid" cs] r show ?case
    by (simp add: countWrappers_def)
next
  case (3 t cl at cs so j ep eo)
  from "3.prems" obtain c r where b: "so \<le> j" "j < length cs"
    and u: "extractUpto (cs ! j) ep eo = Some (c, r)"
    and r: "n' = Element t cl at (take so cs @ r # drop (Suc j) cs)"
      "frag = take (j - so) (drop so cs) @ [c]"
    by (auto split: if_splits option.splits)
  from extractUpto_count [OF u, of hid] sum_list_three_nth [OF b, of "countNode hid"] r
  show ?case by (simp add: countWrappers_def)
next
  case (4 t cl at cs i sp so eo)
  from "4.prems" obtain r c where b: "i < eo" "eo \<le> length cs"
    and u: "extractFrom (cs ! i) sp so = Some (r, c)"
    and r: "n' = Element t cl at (take i cs @ r # drop eo cs)"
      "frag = c # take (eo - Suc i) (drop (Suc i) cs)"
    by (auto split: if_splits option.splits)
  from b have il: "i < length cs" and le: "Suc i \<le> eo" by auto
  have "sum_list (map (countNode hid) (drop (Suc i) cs))
      = sum_list (map (countNode hid) (take (eo - Suc i) (drop (Suc i) cs)))
        + sum_list (map (countNode hid) (drop eo cs))"
    using sum_list_take_drop [of "countNode hid" "drop (Suc i) cs" "eo - Suc i"] le by simp
  with extractFrom_count [OF u, of hid] sum_list_nth_split [OF il, of "countNode hid"] r
  show ?case by (simp add: countWrappers_def)
next
  case (5 t cl at cs i sp so j ep eo)
  show ?case
  proof (cases "i = j")
    case True
    with "5.prems" obtain c np' where il: "i < length cs"
      and e: "extractRec (cs ! i) sp so ep eo = Some (c, frag, np', noff)"
      and r: "n' = Element t cl at (cs[i := c])"
      by (auto split: if_splits option.splits)
    from "5.IH" [OF True il e]
    have "countNode hid (cs ! i) \<le> countNode hid c + sum_list (map (countNode hid) frag)" by simp
    with sum_list_nth_split [OF il, of "countNode hid"] sum_list_update [OF il, of "countNode hid" c] r
    show ?thesis by (simp add: countWrappers_def)
  next
    case False
    from extractRec_diverge [OF False "5.prems"] obtain rest1 clone1 clone2 rest2 where
      b: "i < j" "j < length cs"
      and f: "extractFrom (cs ! i) sp so = Some (rest1, clone1)"
      and u: "extractUpto (cs ! j) ep eo = Some (clone2, rest2)"
      and r: "n' = Element t cl at (take i cs @ rest1 # rest2 # drop (Suc j) cs)"
        "frag = clone1 # take (j - Suc i) (drop (Suc i) cs) @ [clone2]"
      by blast
    from b have il: "i < length cs" and le: "Suc i \<le> j" and jl: "j - Suc i < length (drop (Suc i) cs)"
      by auto
    have d: "drop (Suc i) cs ! (j - Suc i) = cs ! j" "drop (Suc (j - Suc i)) (drop (Suc i) cs) = drop (Suc j) cs"
      using b by auto
    have "sum_list (map (countNode hid) (drop (Suc i) cs))
      = sum_list (map (countNode hid) (take (j - Suc i) (drop (Suc i) cs)))
        + countNode hid (cs ! j) + sum_list (map (countNode hid) (drop (Suc j) cs))"
      using sum_list_nth_split [OF jl, of "countNode hid"] d by simp
    with extractFrom_count [OF f, of hid] extractUpto_count [OF u, of hid]
      sum_list_nth_split [OF il, of "countNode hid"] r
    show ?thesis by (simp add: countWrappers_def)
  qed
qed simp_all


lemma wrapperElement_count_frag:
  "sum_list (map (countNode hid') frag) \<le> countNode hid' (wrapperElement hid c frag)"
  by (simp add: wrapperElement_def)

lemma showToast_count: "countWrappers (body (showToast m pg)) hid = countWrappers (body pg) hid"
  by (cases "body pg") (simp_all add: showToast_def toastElement_def countWrappers_def)

lemma showToast_isText: "isText (body (showToast m pg)) = isText (body pg)"
  by (cases "body pg") (simp_all add: showToast_def)

lemma applyHighlight_cases:
  assumes "\<not> isText (body pg)" and "\<not> collapsed r"
  shows "(extractContents (body pg) r = None
            \<and> applyHighlight pg r hid c
                = showToast (warningSign @ '' Could not highlight this selection'') pg)
       \<or> (\<exists>b1 frag np noff b2. extractContents (body pg) r = Some (b1, frag, np, noff)
            \<and> extractRec (body pg) (startContainer r) (startOff r) (endContainer r) (endOff r)
                = Some (b1, frag, np, noff)
            \<and> insertNode b1 np noff (wrapperElement hid c frag) = Some b2 \<and> \<not> isText b2
            \<and> (applyHighlight pg r hid c = pg\<lparr>body := b2\<rparr>
                 \<or> applyHighlight pg r hid c = pg\<lparr>body := normalizeAt b2 (insertionParent b1 np)\<rparr>))"
proof (cases "extractContents (body pg) r")
  case None
  then have "surroundContents (body pg) r (wrapperElement hid c) = None"
    by (simp add: surroundContents_def)
  with None assms(2) show ?thesis by (simp add: applyHighlight_def)
next
  case (Some res)
  obtain b1 frag np noff where res: "res = (b1, frag, np, noff)" by (cases res) auto
  from Some res assms(2) have
    ex: "extractRec (body pg) (startContainer r) (startOff r) (endContainer r) (endOff r)
           = Some (b1, frag, np, noff)"
    by (simp add: extractContents_def)
  from extract_insert [OF ex assms(1)] obtain b2 where
    b2: "insertNode b1 np noff (wrapperElement hid c frag) = Some b2" "\<not> isText b2"
    by blast
  have "applyHighlight pg r hid c = pg\<lparr>body := b2\<rparr>
      \<or> applyHighlight pg r hid c = pg\<lparr>body := normalizeAt b2 (insertionParent b1 np)\<rparr>"
    using Some res b2(1) assms(2)
    by (cases "partiallyContainsNonText (body pg) (startContainer r) (endContainer r)")
       (simp_all add: applyHighlight_def surroundContents_def)
  with Some res ex b2 show ?thesis by blast
qed

lemma applyHighlight_isText:
  assumes "\<not> isText (body pg)"
  shows "\<not> isText (body (applyHighlight pg r hid c))"
proof (cases "collapsed r")
  case True
  with assms show ?thesis by (simp add: applyHighlight_def)
next
  case False
  from applyHighlight_cases [OF assms False, of hid c] assms show ?thesis
    by (auto simp: showToast_isText normalizeAt_isText)
qed

lemma applyHighlight_count:
  "countWrappers (body pg) hid' \<le> countWrappers (body (applyHighlight pg r hid c)) hid'"
proof (cases "isText (body pg) \<or> collapsed r")
  case True
  then show ?thesis
  proof
    assume "isText (body pg)"
    then have "countWrappers (body pg) hid' = 0" by (cases "body pg") (simp_all add: countWrappers_def)
    then show ?thesis by simp
  next
    assume "collapsed r"
    then show ?thesis by (simp add: applyHighlight_def)
  qed
next
  case False
  then have n: "\<not> isText (body pg)" "\<not> collapsed r" by auto
  from applyHighlight_cases [OF n, of hid c] show ?thesis
  proof
    assume "extractContents (body pg) r = None
            \<and> applyHighlight pg r hid c
                = showToast (warningSign @ '' Could not highlight this selection'') pg"
    then show ?thesis by (simp add: showToast_count)
  next
    assume "\<exists>b1 frag np noff b2. extractContents (body pg) r = Some (b1, frag, np, noff)
            \<and> extractRec (body pg) (startContainer r) (startOff r) (endContainer r) (endOff r)
                = Some (b1, frag, np, noff)
            \<and> insertNode b1 np noff (wrapperElement hid c frag) = Some b2 \<and> \<not> isText b2
            \<and> (applyHighlight pg r hid c = pg\<lparr>body := b2\<rparr>
                 \<or> applyHighlight pg r hid c = pg\<lparr>body := normalizeAt b2 (insertionParent b1 np)\<rparr>)"
    then obtain b1 frag np noff b2 where
      ex: "extractRec (body pg) (startContainer r) (startOff r) (endContainer r) (endOff r)
                = Some (b1, frag, np, noff)"
      and ins: "insertNode b1 np noff (wrapperElement hid c frag) = Some b2"
      and a: "applyHighlight pg r hid c = pg\<lparr>body := b2\<rparr>
                 \<or> applyHighlight pg r hid c = pg\<lparr>body := normalizeAt b2 (insertionParent b1 np)\<rparr>"
      by blast
    from extractRec_count [OF ex, of hid'] insertNode_count [OF ins, of hid']
      wrapperElement_count_frag [of hid' frag hid c]
    have "countWrappers (body pg) hid' \<le> countWrappers b2 hid'" by simp
    with a show ?thesis by (auto simp: normalizeAt_count)
  qed
qed

lemma restoreOne_keeps:
  assumes "restoreOne h (pg, sc, fc) = (pg', sc', fc')"
  shows "countWrappers (body pg) hid \<le> countWrappers (body pg') hid
     \<and> (\<not> isText (body pg) \<longrightarrow> \<not> isText (body pg'))"
  using assms applyHighlight_count [of pg hid _ "hlId h" "color h"] applyHighlight_isText [of pg _ "hlId h" "color h"]
  by (auto simp: restoreOne_def split: option.splits)

lemma restoreEach_keeps:
  "restoreEach hs (pg, sc, fc) = (pg', sc', fc')
     \<Longrightarrow> countWrappers (body pg) hid \<le> countWrappers (body pg') hid
       \<and> (\<not> isText (body pg) \<longrightarrow> \<not> isText (body pg'))"
proof (induction hs arbitrary: pg sc fc)
  case Nil
  then show ?case by simp
next
  case (Cons h hs)
  obtain pg1 sc1 fc1 where o: "restoreOne h (pg, sc, fc) = (pg1, sc1, fc1)"
    by (cases "restoreOne h (pg, sc, fc)") auto
  from Cons.prems o have "restoreEach hs (pg1, sc1, fc1) = (pg', sc', fc')" by simp
  from Cons.IH [OF this] restoreOne_keeps [OF o, of hid] show ?case by auto
qed

lemma occursAt_inner:
  assumes "occursAt s (tb @ st @ ta) p"
  shows "occursAt s st (p + length tb)"
proof -
  from assms have len: "p + (length tb + length st + length ta) \<le> length s"
    and tk: "take (length tb + length st + length ta) (drop p s) = tb @ st @ ta"
    by (auto simp: occursAt_def add.assoc)
  have "drop (length tb) (take (length tb + length st + length ta) (drop p s)) = st @ ta"
    using tk by simp
  then have "take (length st + length ta) (drop (p + length tb) s) = st @ ta"
    by (simp add: drop_take add.commute add.assoc)
  then have "take (length st) (take (length st + length ta) (drop (p + length tb) s)) = st"
    by simp
  then have "take (length st) (drop (p + length tb) s) = st"
    by (simp add: min_absorb1)
  with len show ?thesis by (simp add: occursAt_def)
qed

lemma indexOf_context_None:
  assumes "indexOf full st = None"
  shows "indexOf full (tb @ st @ ta) = None"
proof (cases "indexOf full (tb @ st @ ta)")
  case None
  then show ?thesis .
next
  case (Some p)
  from indexOf_Some [OF Some] have "occursAt full (tb @ st @ ta) p" by simp
  then have "occursAt full st (p + length tb)" by (rule occursAt_inner)
  with indexOf_None [OF assms] show ?thesis by blast
qed

lemma searchIndex_absent:
  "indexOf full st = None \<Longrightarrow> searchIndex full st tb ta = None"
  by (simp add: searchIndex_def indexOf_context_None Let_def)

lemma searchIndex_fallback:
  "indexOf full (orEmpty tb @ st @ orEmpty ta) = None
     \<Longrightarrow> searchIndex full st tb ta = indexOf full st"
  by (simp add: searchIndex_def Let_def)

lemma findTextWithContext_fallback:
  assumes "st \<noteq> []" and "linearizeRestore d = (textNodes, fullText)"
    and "indexOf fullText (orEmpty tb @ st @ orEmpty ta) = None"
  shows "findTextWithContext d (Some st) tb ta
     = (case indexOf fullText st of None \<Rightarrow> None | Some q \<Rightarrow> materialize d textNodes st q)"
  using assms by (simp add: findTextWithContext_def searchIndex_fallback)

lemma restoreEach_append:
  "restoreEach (xs @ ys) st = restoreEach ys (restoreEach xs st)"
  by (induction xs arbitrary: st) auto

lemma restoreOne_counts:
  "restoreOne h (pg, sc, fc) = (pg', sc', fc') \<Longrightarrow> sc' + fc' = sc + fc + 1 \<and> sc \<le> sc' \<and> fc \<le> fc'"
  by (auto simp: restoreOne_def split: option.splits)

lemma restoreEach_counts:
  "restoreEach hs (pg, sc, fc) = (pg', sc', fc')
     \<Longrightarrow> sc' + fc' = sc + fc + length hs \<and> sc \<le> sc' \<and> fc \<le> fc'"
proof (induction hs arbitrary: pg sc fc)
  case Nil
  then show ?case by simp
next
  case (Cons h hs)
  obtain pg1 sc1 fc1 where o: "restoreOne h (pg, sc, fc) = (pg1, sc1, fc1)"
    by (cases "restoreOne h (pg, sc, fc)") auto
  from Cons.prems o have "restoreEach hs (pg1, sc1, fc1) = (pg', sc', fc')" by simp
  from Cons.IH [OF this] restoreOne_counts [OF o] show ?case by simp
qed

text \<open>
  Claim C4, not-found is non-fatal and the batch is isolated. The batch is
  \<^verbatim>\<open>restoreHighlights\<close> on a page whose array holds a highlight \<open>h\<close> between the highlights
  \<open>xs\<close> before it and \<open>ys\<close> after it, the body being an element; \<open>pg1\<close> is the page as the
  highlights before \<open>h\<close> have left it. When the text of \<open>h\<close> is not in the linear text of
  \<open>pg1\<close>, its resolution gives \<^verbatim>\<open>null\<close>, its step leaves the page as it is and counts one
  failure, and the batch ends as the steps of \<open>ys\<close> end from that very page: the result of
  \<^verbatim>\<open>restoreHighlights\<close> is their page (with the toast of the count when something was
  restored) and their counters, every highlight of the array is counted once, and the
  failure is among the failures. Every remaining highlight \<open>y\<close> that resolves when its turn
  comes is applied and counted as a success, and an element with its id is in the
  document that \<^verbatim>\<open>restoreHighlights\<close> leaves. For every anchor whose context pattern is not
  in the linear text, the offset is that of the leftmost occurrence of the text alone, and
  the range is built from it.
\<close>

theorem not_found_does_not_abort:
  assumes hs: "highlights pg = xs @ h # ys"
    and el: "\<not> isText (body pg)"
    and pre: "restoreEach xs (pg, 0, 0) = (pg1, sc, fc)"
    and missing: "indexOf (snd (linearizeRestore (body pg1))) (hlText h) = None"
    and post: "restoreEach ys (pg1, sc, fc + 1) = (pg3, sc3, fc3)"
  shows "findTextWithContext (body pg1) (Some (hlText h)) (textBefore h) (textAfter h) = None
     \<and> restoreOne h (pg1, sc, fc) = (pg1, sc, fc + 1)
     \<and> restoreHighlights pg
         = (if sc3 > 0
            then showToast (checkMark @ '' Restored '' @ showNat sc3 @ '' highlight(s)'') pg3
            else pg3, sc3, fc3)
     \<and> sc3 + fc3 = length (highlights pg)
     \<and> fc < fc3
     \<and> (ys = ys1 @ y # ys2 \<and> restoreEach ys1 (pg1, sc, fc + 1) = (pgy, scy, fcy)
          \<and> createRangeFromHighlight (body pgy) y = Some r
          \<longrightarrow> restoreOne y (pgy, scy, fcy) = (applyHighlight pgy r (hlId y) (color y), scy + 1, fcy)
              \<and> querySelector (body (applyHighlight pgy r (hlId y) (color y))) (hlId y) \<noteq> None
              \<and> querySelector (body (fst (restoreHighlights pg))) (hlId y) \<noteq> None
              \<and> scy < sc3)
     \<and> (st \<noteq> [] \<and> linearizeRestore d = (textNodes, fullText)
          \<and> indexOf fullText (orEmpty tb @ st @ orEmpty ta) = None
          \<longrightarrow> searchIndex fullText st tb ta = indexOf fullText st
              \<and> findTextWithContext d (Some st) tb ta
                  = (case indexOf fullText st of None \<Rightarrow> None
                     | Some q \<Rightarrow> materialize d textNodes st q))
     \<and> (indexOf fullText st = Some q
          \<longrightarrow> occursAt fullText st q \<and> (\<forall>q'<q. \<not> occursAt fullText st q'))"
proof -
  let ?toast = "checkMark @ '' Restored '' @ showNat sc3 @ '' highlight(s)''"
  have f: "findTextWithContext (body pg1) (Some (hlText h)) (textBefore h) (textAfter h) = None"
    using missing searchIndex_absent [of "snd (linearizeRestore (body pg1))" "hlText h"]
    by (auto simp: findTextWithContext_def split: prod.splits)
  then have c: "createRangeFromHighlight (body pg1) h = None"
    by (simp add: createRangeFromHighlight_def split: option.splits)
  then have o: "restoreOne h (pg1, sc, fc) = (pg1, sc, fc + 1)"
    by (simp add: restoreOne_def)
  have e: "restoreEach (highlights pg) (pg, 0, 0) = (pg3, sc3, fc3)"
    using hs pre o post by (simp add: restoreEach_append)
  then have b: "restoreHighlights pg = (if sc3 > 0 then showToast ?toast pg3 else pg3, sc3, fc3)"
    by (simp add: restoreHighlights_def)
  from restoreEach_counts [OF e] have n: "sc3 + fc3 = length (highlights pg)" by simp
  from restoreEach_counts [OF post] have m: "fc < fc3" by simp
  have w: "restoreOne y (pgy, scy, fcy) = (applyHighlight pgy r (hlId y) (color y), scy + 1, fcy)
              \<and> querySelector (body (applyHighlight pgy r (hlId y) (color y))) (hlId y) \<noteq> None
              \<and> querySelector (body (fst (restoreHighlights pg))) (hlId y) \<noteq> None
              \<and> scy < sc3"
    if a: "ys = ys1 @ y # ys2 \<and> restoreEach ys1 (pg1, sc, fc + 1) = (pgy, scy, fcy)
          \<and> createRangeFromHighlight (body pgy) y = Some r"
  proof -
    from restoreEach_keeps [OF pre, of "hlId y"] el have "\<not> isText (body pg1)" by simp
    with a restoreEach_keeps [of ys1 pg1 sc "fc + 1" pgy scy fcy "hlId y"]
    have ely: "\<not> isText (body pgy)" by simp
    from a have cr: "createRangeFromHighlight (body pgy) y = Some r" by simp
    let ?pgy' = "applyHighlight pgy r (hlId y) (color y)"
    from restoreOne_wraps [OF cr ely, of scy fcy]
    have ro: "restoreOne y (pgy, scy, fcy) = (?pgy', scy + 1, fcy)"
      and q: "querySelector (body ?pgy') (hlId y) \<noteq> None"
      by simp_all
    from a post ro have rest: "restoreEach ys2 (?pgy', scy + 1, fcy) = (pg3, sc3, fc3)"
      by (simp add: restoreEach_append)
    from restoreEach_keeps [OF rest, of "hlId y"] q
    have "countWrappers (body pg3) (hlId y) > 0"
      by (simp add: querySelector_count)
    then have "querySelector (body (fst (restoreHighlights pg))) (hlId y) \<noteq> None"
      by (simp add: b querySelector_count showToast_count)
    moreover from restoreEach_counts [OF rest] have "scy < sc3" by simp
    ultimately show ?thesis using ro q by simp
  qed
  have fb: "searchIndex fullText st tb ta = indexOf fullText st
              \<and> findTextWithContext d (Some st) tb ta
                  = (case indexOf fullText st of None \<Rightarrow> None
                     | Some q \<Rightarrow> materialize d textNodes st q)"
    if "st \<noteq> [] \<and> linearizeRestore d = (textNodes, fullText)
          \<and> indexOf fullText (orEmpty tb @ st @ orEmpty ta) = None"
    using that searchIndex_fallback [of fullText tb st ta]
      findTextWithContext_fallback [of st d textNodes fullText tb ta]
    by simp
  have lm: "indexOf fullText st = Some q
          \<longrightarrow> occursAt fullText st q \<and> (\<forall>q'<q. \<not> occursAt fullText st q')"
    using indexOf_Some by blast
  from f o b n m w fb lm show ?thesis by blast
qed

theorem not_found_does_not_abort_witness:
  "restoreHighlights page5
     = (page5\<lparr>body := Element ''body'' [] []
          [Element ''p'' [] []
             [Text [], wrapperElement ''A'' ''#ffeb3b'' [Text ''alpha''], Text '' beta '',
              wrapperElement ''G'' ''#a5d6a7'' [Text ''gamma''], Text []],
           toastElement (checkMark @ '' Restored 2 highlight(s)'')],
         toasts := [checkMark @ '' Restored 2 highlight(s)'']\<rparr>, 2, 1)
   \<and> findTextWithContext (body (fst (restoreEach [hAlpha] (page5, 0, 0))))
        (Some ''delta'') (Some ''beta '') (Some []) = None
   \<and> restoreOne hMissing (restoreEach [hAlpha] (page5, 0, 0))
        = (fst (restoreEach [hAlpha] (page5, 0, 0)), 1, 1)
   \<and> searchIndex '' beta gamma'' ''gamma'' (Some ''alpha beta '') (Some []) = Some 6
   \<and> querySelector (body (fst (restoreHighlights page5))) ''G'' \<noteq> None"
proof -
  let ?b1 = "Element ''body'' [] []
          [Element ''p'' [] []
             [Text [], wrapperElement ''A'' ''#ffeb3b'' [Text ''alpha''], Text '' beta gamma'']]"
  let ?b3 = "Element ''body'' [] []
          [Element ''p'' [] []
             [Text [], wrapperElement ''A'' ''#ffeb3b'' [Text ''alpha''], Text '' beta '',
              wrapperElement ''G'' ''#a5d6a7'' [Text ''gamma''], Text []]]"
  let ?pg1 = "page5\<lparr>body := ?b1\<rparr>"
  let ?pg3 = "page5\<lparr>body := ?b3\<rparr>"
  let ?r = "\<lparr>startContainer = [0, 2], startOff = 6, endContainer = [0, 2], endOff = 11\<rparr>"
  let ?l = "[\<lparr>node = [0, 2], startOffset = 0, endOffset = 11, nodeText = '' beta gamma''\<rparr>]"
  have hs: "highlights page5 = [hAlpha] @ hMissing # [hGamma]" by (simp add: page5_def)
  have el: "\<not> isText (body page5)" by (simp add: page5_def doc5_def)
  have pre: "restoreEach [hAlpha] (page5, 0, 0) = (?pg1, 1, 0)" by code_simp
  have a: "indexOf (snd (linearizeRestore (body ?pg1))) (hlText hMissing) = None" by code_simp
  have post: "restoreEach [hGamma] (?pg1, 1, 0 + 1) = (?pg3, 2, 1)" by code_simp
  have y: "[hGamma] = [] @ hGamma # [] \<and> restoreEach [] (?pg1, 1, 0 + 1) = (?pg1, 1, 1)
      \<and> createRangeFromHighlight (body ?pg1) hGamma = Some ?r"
    by code_simp
  have l: "''gamma'' \<noteq> [] \<and> linearizeRestore (body ?pg1) = (?l, '' beta gamma'')
      \<and> indexOf '' beta gamma'' (orEmpty (Some ''alpha beta '') @ ''gamma'' @ orEmpty (Some [])) = None"
    by code_simp
  have j: "indexOf '' beta gamma'' ''gamma'' = Some 6" by code_simp
  have m: "hlText hMissing = ''delta''" "textBefore hMissing = Some ''beta ''" "textAfter hMissing = Some []"
    by (simp_all add: hMissing_def)
  have k: "hlId hGamma = ''G''" by (simp add: hGamma_def)
  have t: "showToast (checkMark @ '' Restored '' @ showNat 2 @ '' highlight(s)'') ?pg3
     = page5\<lparr>body := Element ''body'' [] []
          [Element ''p'' [] []
             [Text [], wrapperElement ''A'' ''#ffeb3b'' [Text ''alpha''], Text '' beta '',
              wrapperElement ''G'' ''#a5d6a7'' [Text ''gamma''], Text []],
           toastElement (checkMark @ '' Restored 2 highlight(s)'')],
         toasts := [checkMark @ '' Restored 2 highlight(s)'']\<rparr>"
    by code_simp
  note T = not_found_does_not_abort [OF hs el pre a post, where ?ys1.0 = "[]" and y = hGamma
      and ?ys2.0 = "[]" and pgy = ?pg1 and scy = 1 and fcy = 1 and r = ?r
      and st = "''gamma''" and d = "body ?pg1" and textNodes = ?l and fullText = "'' beta gamma''"
      and tb = "Some ''alpha beta ''" and ta = "Some []" and q = 6]
  from T have "restoreHighlights page5
      = (if (2::nat) > 0
         then showToast (checkMark @ '' Restored '' @ showNat 2 @ '' highlight(s)'') ?pg3
         else ?pg3, 2, 1)"
    by blast
  then have c1: "restoreHighlights page5
      = (showToast (checkMark @ '' Restored '' @ showNat 2 @ '' highlight(s)'') ?pg3, 2, 1)"
    by simp
  from T have "findTextWithContext (body ?pg1) (Some (hlText hMissing)) (textBefore hMissing)
      (textAfter hMissing) = None"
    by blast
  then have c2: "findTextWithContext (body (fst (restoreEach [hAlpha] (page5, 0, 0))))
        (Some ''delta'') (Some ''beta '') (Some []) = None"
    by (simp only: pre m fst_conv)
  from T have "restoreOne hMissing (?pg1, 1, 0) = (?pg1, 1, 0 + 1)" by blast
  then have c3: "restoreOne hMissing (restoreEach [hAlpha] (page5, 0, 0))
        = (fst (restoreEach [hAlpha] (page5, 0, 0)), 1, 1)"
    by (simp only: pre fst_conv add_0)
  from T l have "searchIndex '' beta gamma'' ''gamma'' (Some ''alpha beta '') (Some [])
      = indexOf '' beta gamma'' ''gamma''"
    by blast
  then have c4: "searchIndex '' beta gamma'' ''gamma'' (Some ''alpha beta '') (Some []) = Some 6"
    by (simp only: j)
  from T y have "querySelector (body (fst (restoreHighlights page5))) (hlId hGamma) \<noteq> None"
    by blast
  then have c5: "querySelector (body (fst (restoreHighlights page5))) ''G'' \<noteq> None"
    unfolding k .
  from c1 have "restoreHighlights page5
     = (page5\<lparr>body := Element ''body'' [] []
          [Element ''p'' [] []
             [Text [], wrapperElement ''A'' ''#ffeb3b'' [Text ''alpha''], Text '' beta '',
              wrapperElement ''G'' ''#a5d6a7'' [Text ''gamma''], Text []],
           toastElement (checkMark @ '' Restored 2 highlight(s)'')],
         toasts := [checkMark @ '' Restored 2 highlight(s)'']\<rparr>, 2, 1)"
    by (simp only: t)
  with c2 c3 c4 c5 show ?thesis by blast
qed

text \<open>
  An element that carries the id of a highlight makes \<^verbatim>\<open>createRangeFromHighlight\<close> return
  \<^verbatim>\<open>null\<close> before anything is searched; the step leaves the page as it is.
\<close>

lemma existing_wrapper_skipped:
  assumes "querySelector (body pg) (hlId h) = Some q"
  shows "createRangeFromHighlight (body pg) h = None
     \<and> restoreOne h (pg, sc, fc) = (pg, sc, fc + 1)"
  using assms by (simp add: createRangeFromHighlight_def restoreOne_def)

text \<open>
  So a highlight that has just been restored is skipped when it is restored again.
\<close>

lemma restoreOne_twice:
  assumes "createRangeFromHighlight (body pg) h = Some r" and "\<not> isText (body pg)"
    and "restoreOne h (pg, sc, fc) = (pg1, sc1, fc1)"
  shows "restoreOne h (pg1, sc1, fc1) = (pg1, sc1, fc1 + 1)"
proof -
  from restoreOne_wraps [OF assms(1,2), of sc fc] assms(3)
  obtain q where "querySelector (body pg1) (hlId h) = Some q" by auto
  then show ?thesis by (simp add: existing_wrapper_skipped)
qed

text \<open>
  Claim C5 says that, a highlight being skipped when an element with its id exists, a
  second restoration never creates a second wrapper for an id, and at most one element
  carries an id at a time. The skip holds (see above), but it does not keep the elements
  that carry one id down to one. In \<open>docC\<close> the highlight \<^verbatim>\<open>X\<close> is applied by the second
  way and its wrapper holds only elements, whose text resolution does not leave out. A
  restoration of \<^verbatim>\<open>X\<close> and \<^verbatim>\<open>Y\<close> on the page that already holds the wrapper of \<^verbatim>\<open>X\<close>
  skips \<^verbatim>\<open>X\<close>, but the range of \<^verbatim>\<open>Y\<close> starts inside that wrapper and ends behind it, so
  \<^verbatim>\<open>extractContents\<close> clones the wrapper with its id: two elements carry the id of \<^verbatim>\<open>X\<close>
  afterwards. The same happens when both are restored on the fresh document.
\<close>

theorem second_wrapper_by_cloning:
  "countWrappers docC ''X'' = 0
   \<and> countWrappers (body (fst (restoreEach [hX] (emptyPage docC, 0, 0)))) ''X'' = 1
   \<and> createRangeFromHighlight (body (fst (restoreEach [hX] (emptyPage docC, 0, 0)))) hX = None
   \<and> countWrappers
        (body (fst (restoreEach [hX, hY] (fst (restoreEach [hX] (emptyPage docC, 0, 0)), 0, 0)))) ''X'' = 2
   \<and> countWrappers (body (fst (restoreEach [hX, hY] (emptyPage docC, 0, 0)))) ''X'' = 2
   \<and> body (fst (restoreEach [hX, hY] (emptyPage docC, 0, 0)))
       = Element ''body'' [] []
           [Element ''p'' [] []
              [Element ''b'' [] [] [],
               wrapperElement ''X'' ''#ffeb3b'' [Element ''b'' [] [] [Text ''foo''], Element ''i'' [] [] []],
               wrapperElement ''Y'' ''#90caf9''
                 [wrapperElement ''X'' ''#ffeb3b'' [Element ''i'' [] [] [Text ''bar'']],
                  Element ''i'' [] [] [], Text '' b''],
               Text ''az'']]"
  by code_simp

end
